theory Spec2Isabelle
  imports Main "HOL-Library.Word"
begin

unbundle bit_operations_syntax

section \<open>The snake game of \<^verbatim>\<open>src/main.cpp\<close>\<close>

text \<open>
  This theory embeds the game logic of \<^verbatim>\<open>src/main.cpp\<close>: the bit-packed playfield
  (\<^verbatim>\<open>snake_cell_at\<close>, \<^verbatim>\<open>put_cell_at_\<close>), food placement, \<^verbatim>\<open>snake_initialize\<close>,
  \<^verbatim>\<open>snake_redir\<close>, \<^verbatim>\<open>wrap_around_\<close>, \<^verbatim>\<open>snake_step\<close> and the catch-up loop of
  \<^verbatim>\<open>SDL_AppIterate\<close>.

  Conventions of the embedding:
  \<^item> \<^verbatim>\<open>char\<close> is an 8-bit word read as signed (\<open>sint\<close>), \<^verbatim>\<open>unsigned char\<close> an 8-bit
    word, \<^verbatim>\<open>unsigned short\<close> a 16-bit word, \<^verbatim>\<open>unsigned\<close> a 32-bit word and
    \<^verbatim>\<open>Uint64\<close> a 64-bit word; \<open>+\<close> and \<open>-\<close> wrap as the machine does. The signedness
    of \<^verbatim>\<open>char\<close> is the compiler's choice: the test \<^verbatim>\<open>*val < 0\<close> of \<^verbatim>\<open>wrap_around_\<close> can only
    succeed where \<^verbatim>\<open>char\<close> is signed, which is what is modelled.
  \<^item> \<^verbatim>\<open>SDL_memcpy\<close> of an \<^verbatim>\<open>unsigned short\<close> is little-endian: the byte at the lower
    address is the low byte.
  \<^item> The members of \<^verbatim>\<open>SnakeContext\<close> lie in declaration order; \<^verbatim>\<open>head_xpos\<close> is a
    \<^verbatim>\<open>char\<close> and so sits directly behind the last byte of \<^verbatim>\<open>cells\<close>.
  \<^item> A name of the source that ends in an underscore (\<^verbatim>\<open>put_cell_at_\<close>) loses it here.
  \<^item> \<^verbatim>\<open>SDL_rand\<close> is a library function; its results are taken from an explicit list of
    draws. A loop that is still running when the draws end yields \<open>DrawsExhausted\<close>.
  \<^item> An access that C gives no meaning (a cell offset that is negative, or a window that
    ends behind \<^verbatim>\<open>head_xpos\<close>) yields \<open>OutOfObject\<close>. Both faults are values of the
    result type \<open>fault + 'a\<close>, and a function that calls a faulting one passes the fault on.
\<close>

subsection \<open>Constants and enumerations\<close>

type_synonym c_char = "8 word"
type_synonym uchar = "8 word"
type_synonym ushort = "16 word"
type_synonym uint = "32 word"
type_synonym Uint64 = "64 word"

definition STEP_RATE_IN_MILLISECONDS :: Uint64 where
  "STEP_RATE_IN_MILLISECONDS = 125"

definition SNAKE_GAME_WIDTH :: nat where
  "SNAKE_GAME_WIDTH = 24"

definition SNAKE_GAME_HEIGHT :: nat where
  "SNAKE_GAME_HEIGHT = 18"

definition SNAKE_MATRIX_SIZE :: nat where
  "SNAKE_MATRIX_SIZE = SNAKE_GAME_WIDTH * SNAKE_GAME_HEIGHT"

definition SNAKE_CELL_MAX_BITS :: nat where
  "SNAKE_CELL_MAX_BITS = 3"

definition THREE_BITS :: uint where
  "THREE_BITS = 7"

text \<open>The length of the array \<^verbatim>\<open>cells\<close> in \<^verbatim>\<open>SnakeContext\<close>.\<close>

definition CELLS_SIZE :: nat where
  "CELLS_SIZE = (SNAKE_MATRIX_SIZE * SNAKE_CELL_MAX_BITS) div 8"

text \<open>
  \<^verbatim>\<open>SnakeCell\<close> is a C enumeration, that is an unsigned integer: \<^verbatim>\<open>snake_cell_at\<close> can
  return the two codes 6 and 7 that have no enumerator.
\<close>

type_synonym SnakeCell = uint

definition SNAKE_CELL_NOTHING :: SnakeCell where
  "SNAKE_CELL_NOTHING = 0"

definition SNAKE_CELL_SRIGHT :: SnakeCell where
  "SNAKE_CELL_SRIGHT = 1"

definition SNAKE_CELL_SUP :: SnakeCell where
  "SNAKE_CELL_SUP = 2"

definition SNAKE_CELL_SLEFT :: SnakeCell where
  "SNAKE_CELL_SLEFT = 3"

definition SNAKE_CELL_SDOWN :: SnakeCell where
  "SNAKE_CELL_SDOWN = 4"

definition SNAKE_CELL_FOOD :: SnakeCell where
  "SNAKE_CELL_FOOD = 5"

datatype SnakeDirection = SNAKE_DIR_RIGHT | SNAKE_DIR_UP | SNAKE_DIR_LEFT | SNAKE_DIR_DOWN

text \<open>The integer value of an enumerator of \<^verbatim>\<open>SnakeDirection\<close>.\<close>

fun dir_value :: "SnakeDirection \<Rightarrow> uint" where
  "dir_value SNAKE_DIR_RIGHT = 0"
| "dir_value SNAKE_DIR_UP = 1"
| "dir_value SNAKE_DIR_LEFT = 2"
| "dir_value SNAKE_DIR_DOWN = 3"

subsection \<open>The context\<close>

text \<open>
  The \<^verbatim>\<open>char\<close> member \<^verbatim>\<open>next_dir\<close> is only ever assigned an enumerator of
  \<^verbatim>\<open>SnakeDirection\<close> (by \<^verbatim>\<open>snake_initialize\<close> and \<^verbatim>\<open>snake_redir\<close>; \<^verbatim>\<open>SDL_calloc\<close> leaves 0,
  which is \<^verbatim>\<open>SNAKE_DIR_RIGHT\<close>), so it has that type here.
\<close>

record SnakeContext =
  cells :: "uchar list"
  head_xpos :: c_char
  head_ypos :: c_char
  tail_xpos :: c_char
  tail_ypos :: c_char
  next_dir :: SnakeDirection
  inhibit_tail_step :: c_char
  occupied_cells :: uint

datatype fault = OutOfObject | DrawsExhausted

text \<open>
  \<^verbatim>\<open>SHIFT(x, y)\<close>, the bit offset of a cell, as the \<^verbatim>\<open>int\<close> that both accessors store
  it in. The product is far from the limits of 32 bits for every pair of \<^verbatim>\<open>char\<close>s.
\<close>

definition SHIFT :: "c_char \<Rightarrow> c_char \<Rightarrow> int" where
  "SHIFT x y = (sint x + sint y * int SNAKE_GAME_WIDTH) * int SNAKE_CELL_MAX_BITS"

text \<open>
  \<^verbatim>\<open>SDL_memcpy(&range, ctx->cells + off, sizeof(range))\<close>: two bytes from offset \<open>off\<close> of
  \<^verbatim>\<open>cells\<close>. At \<open>off = CELLS_SIZE - 1\<close> the second byte is the one behind the array,
  the member \<^verbatim>\<open>head_xpos\<close>. Offsets further out (or negative) leave what the model
  covers and are a fault.
\<close>

definition memcpy_from_cells :: "SnakeContext \<Rightarrow> int \<Rightarrow> fault + ushort" where
  "memcpy_from_cells ctx off =
     (if 0 \<le> off \<and> off + 1 < int CELLS_SIZE then
        Inr (word_cat (cells ctx ! nat (off + 1)) (cells ctx ! nat off))
      else if off + 1 = int CELLS_SIZE then
        Inr (word_cat (head_xpos ctx) (cells ctx ! nat off))
      else Inl OutOfObject)"

text \<open>\<^verbatim>\<open>SDL_memcpy(ctx->cells + off, &range, sizeof(range))\<close>, the way back.\<close>

definition memcpy_to_cells :: "SnakeContext \<Rightarrow> int \<Rightarrow> ushort \<Rightarrow> fault + SnakeContext" where
  "memcpy_to_cells ctx off rng =
     (if 0 \<le> off \<and> off + 1 < int CELLS_SIZE then
        Inr (ctx\<lparr>cells := (cells ctx)[nat off := ucast rng,
                                       nat (off + 1) := ucast (drop_bit 8 rng)]\<rparr>)
      else if off + 1 = int CELLS_SIZE then
        Inr (ctx\<lparr>cells := (cells ctx)[nat off := ucast rng],
                 head_xpos := ucast (drop_bit 8 rng)\<rparr>)
      else Inl OutOfObject)"

subsection \<open>Playfield store\<close>

definition snake_cell_at :: "SnakeContext \<Rightarrow> c_char \<Rightarrow> c_char \<Rightarrow> fault + SnakeCell" where
  "snake_cell_at ctx x y =
     (let shift = SHIFT x y in
      if shift < 0 then Inl OutOfObject
      else
        case memcpy_from_cells ctx (shift div 8) of
          Inl e \<Rightarrow> Inl e
        | Inr rng \<Rightarrow> Inr (ucast (drop_bit (nat (shift mod 8)) rng) AND THREE_BITS))"

definition put_cell_at :: "SnakeContext \<Rightarrow> c_char \<Rightarrow> c_char \<Rightarrow> SnakeCell \<Rightarrow> fault + SnakeContext" where
  "put_cell_at ctx x y ct =
     (let shift = SHIFT x y in
      if shift < 0 then Inl OutOfObject
      else
        let adjust = nat (shift mod 8);
            pos = shift div 8
        in
          case memcpy_from_cells ctx pos of
            Inl e \<Rightarrow> Inl e
          | Inr rng \<Rightarrow>
              let rng1 = (ucast ((ucast rng :: uint) AND NOT (push_bit adjust THREE_BITS)) :: ushort);
                  rng2 = (ucast ((ucast rng1 :: uint) OR push_bit adjust (ct AND THREE_BITS)) :: ushort)
              in memcpy_to_cells ctx pos rng2)"

definition are_cells_full :: "SnakeContext \<Rightarrow> bool" where
  "are_cells_full ctx \<longleftrightarrow> occupied_cells ctx = of_nat (SNAKE_GAME_WIDTH * SNAKE_GAME_HEIGHT)"

subsection \<open>Food placement\<close>

text \<open>
  The loop of \<^verbatim>\<open>new_food_pos_\<close>. Each round takes two draws, the results of
  \<^verbatim>\<open>SDL_rand(SNAKE_GAME_WIDTH)\<close> and \<^verbatim>\<open>SDL_rand(SNAKE_GAME_HEIGHT)\<close>; \<^verbatim>\<open>SDL_rand(n)\<close>
  answers in \<open>[0, n)\<close>, so a draw is reduced into that interval.
\<close>

fun new_food_pos :: "SnakeContext \<Rightarrow> nat list \<Rightarrow> fault + (SnakeContext \<times> nat list)" where
  "new_food_pos ctx (rx # ry # rs) =
     (let x = (of_nat (rx mod SNAKE_GAME_WIDTH) :: c_char);
          y = (of_nat (ry mod SNAKE_GAME_HEIGHT) :: c_char)
      in
        case snake_cell_at ctx x y of
          Inl e \<Rightarrow> Inl e
        | Inr ct \<Rightarrow>
            if ct = SNAKE_CELL_NOTHING then
              (case put_cell_at ctx x y SNAKE_CELL_FOOD of
                 Inl e \<Rightarrow> Inl e
               | Inr ctx' \<Rightarrow> Inr (ctx', rs))
            else new_food_pos ctx rs)"
| "new_food_pos ctx rs = Inl DrawsExhausted"

subsection \<open>Initialisation\<close>

text \<open>The loop \<^verbatim>\<open>for (i = 0; i < 4; i++)\<close> of \<^verbatim>\<open>snake_initialize\<close>.\<close>

function initial_food :: "int \<Rightarrow> SnakeContext \<Rightarrow> nat list \<Rightarrow> fault + (SnakeContext \<times> nat list)" where
  "initial_food i ctx rs =
     (if i < 4 then
        case new_food_pos ctx rs of
          Inl e \<Rightarrow> Inl e
        | Inr (ctx', rs') \<Rightarrow>
            initial_food (i + 1) (ctx'\<lparr>occupied_cells := occupied_cells ctx' + 1\<rparr>) rs'
      else Inr (ctx, rs))"
  by pat_completeness auto
termination
  by (relation "measure (\<lambda>(i, ctx, rs). nat (4 - i))") auto

definition snake_initialize :: "SnakeContext \<Rightarrow> nat list \<Rightarrow> fault + (SnakeContext \<times> nat list)" where
  "snake_initialize ctx rs =
     (let ctx1 = ctx\<lparr>cells := replicate CELLS_SIZE 0\<rparr>;
          ctx2 = ctx1\<lparr>tail_xpos := of_nat (SNAKE_GAME_WIDTH div 2),
                      head_xpos := of_nat (SNAKE_GAME_WIDTH div 2)\<rparr>;
          ctx3 = ctx2\<lparr>tail_ypos := of_nat (SNAKE_GAME_HEIGHT div 2),
                      head_ypos := of_nat (SNAKE_GAME_HEIGHT div 2)\<rparr>;
          ctx4 = ctx3\<lparr>next_dir := SNAKE_DIR_RIGHT\<rparr>;
          ctx5 = ctx4\<lparr>occupied_cells := 4, inhibit_tail_step := 4\<rparr>;
          ctx6 = ctx5\<lparr>occupied_cells := occupied_cells ctx5 - 1\<rparr>
      in
        case put_cell_at ctx6 (tail_xpos ctx6) (tail_ypos ctx6) SNAKE_CELL_SRIGHT of
          Inl e \<Rightarrow> Inl e
        | Inr ctx7 \<Rightarrow> initial_food 0 ctx7 rs)"

subsection \<open>Turning\<close>

definition snake_redir :: "SnakeContext \<Rightarrow> SnakeDirection \<Rightarrow> fault + SnakeContext" where
  "snake_redir ctx dir =
     (case snake_cell_at ctx (head_xpos ctx) (head_ypos ctx) of
        Inl e \<Rightarrow> Inl e
      | Inr ct \<Rightarrow>
          if (dir = SNAKE_DIR_RIGHT \<and> ct \<noteq> SNAKE_CELL_SLEFT) \<or>
             (dir = SNAKE_DIR_UP \<and> ct \<noteq> SNAKE_CELL_SDOWN) \<or>
             (dir = SNAKE_DIR_LEFT \<and> ct \<noteq> SNAKE_CELL_SRIGHT) \<or>
             (dir = SNAKE_DIR_DOWN \<and> ct \<noteq> SNAKE_CELL_SUP)
          then Inr (ctx\<lparr>next_dir := dir\<rparr>)
          else Inr ctx)"

subsection \<open>Stepping\<close>

text \<open>
  \<^verbatim>\<open>wrap_around_(&val, max)\<close>: the comparisons are made on \<^verbatim>\<open>int\<close>, after the
  promotion of both \<^verbatim>\<open>char\<close>s.
\<close>

definition wrap_around :: "c_char \<Rightarrow> c_char \<Rightarrow> c_char" where
  "wrap_around val mx =
     (if sint val < 0 then mx - 1
      else if sint val > sint mx - 1 then 0
      else val)"

text \<open>
  The first block of \<^verbatim>\<open>snake_step\<close> (``move the tail''), from the decrement of
  \<^verbatim>\<open>inhibit_tail_step\<close> to the two calls of \<^verbatim>\<open>wrap_around_\<close> on the tail.
\<close>

definition step_tail :: "SnakeContext \<Rightarrow> fault + SnakeContext" where
  "step_tail ctx =
     (let ctx1 = ctx\<lparr>inhibit_tail_step := inhibit_tail_step ctx - 1\<rparr> in
      if inhibit_tail_step ctx1 = 0 then
        let ctx2 = ctx1\<lparr>inhibit_tail_step := inhibit_tail_step ctx1 + 1\<rparr> in
        case snake_cell_at ctx2 (tail_xpos ctx2) (tail_ypos ctx2) of
          Inl e \<Rightarrow> Inl e
        | Inr ct \<Rightarrow>
            (case put_cell_at ctx2 (tail_xpos ctx2) (tail_ypos ctx2) SNAKE_CELL_NOTHING of
               Inl e \<Rightarrow> Inl e
             | Inr ctx3 \<Rightarrow>
                 let ctx4 =
                      (if ct = SNAKE_CELL_SRIGHT then ctx3\<lparr>tail_xpos := tail_xpos ctx3 + 1\<rparr>
                       else if ct = SNAKE_CELL_SUP then ctx3\<lparr>tail_ypos := tail_ypos ctx3 - 1\<rparr>
                       else if ct = SNAKE_CELL_SLEFT then ctx3\<lparr>tail_xpos := tail_xpos ctx3 - 1\<rparr>
                       else if ct = SNAKE_CELL_SDOWN then ctx3\<lparr>tail_ypos := tail_ypos ctx3 + 1\<rparr>
                       else ctx3);
                     ctx5 = ctx4\<lparr>tail_xpos := wrap_around (tail_xpos ctx4) (of_nat SNAKE_GAME_WIDTH)\<rparr>;
                     ctx6 = ctx5\<lparr>tail_ypos := wrap_around (tail_ypos ctx5) (of_nat SNAKE_GAME_HEIGHT)\<rparr>
                 in Inr ctx6)
      else Inr ctx1)"

text \<open>
  The second block (``move the head''): the \<^verbatim>\<open>switch\<close> on \<^verbatim>\<open>next_dir\<close> and the two
  calls of \<^verbatim>\<open>wrap_around_\<close> on the head.
\<close>

definition step_head :: "SnakeContext \<Rightarrow> SnakeContext" where
  "step_head ctx =
     (let ctx1 =
           (case next_dir ctx of
              SNAKE_DIR_RIGHT \<Rightarrow> ctx\<lparr>head_xpos := head_xpos ctx + 1\<rparr>
            | SNAKE_DIR_UP \<Rightarrow> ctx\<lparr>head_ypos := head_ypos ctx - 1\<rparr>
            | SNAKE_DIR_LEFT \<Rightarrow> ctx\<lparr>head_xpos := head_xpos ctx - 1\<rparr>
            | SNAKE_DIR_DOWN \<Rightarrow> ctx\<lparr>head_ypos := head_ypos ctx + 1\<rparr>);
          ctx2 = ctx1\<lparr>head_xpos := wrap_around (head_xpos ctx1) (of_nat SNAKE_GAME_WIDTH)\<rparr>;
          ctx3 = ctx2\<lparr>head_ypos := wrap_around (head_ypos ctx2) (of_nat SNAKE_GAME_HEIGHT)\<rparr>
      in ctx3)"

text \<open>
  The third block (``collision detection''), from the read of the cell under the new head
  to the end of \<^verbatim>\<open>snake_step\<close>. \<open>dir_as_cell\<close> and the previous head position are the
  locals that \<^verbatim>\<open>snake_step\<close> computed before.
\<close>

definition step_collide :: "SnakeCell \<Rightarrow> c_char \<Rightarrow> c_char \<Rightarrow> SnakeContext \<Rightarrow> nat list \<Rightarrow>
    fault + (SnakeContext \<times> nat list)" where
  "step_collide dir_as_cell prev_xpos prev_ypos ctx rs =
     (case snake_cell_at ctx (head_xpos ctx) (head_ypos ctx) of
        Inl e \<Rightarrow> Inl e
      | Inr ct \<Rightarrow>
          if ct \<noteq> SNAKE_CELL_NOTHING \<and> ct \<noteq> SNAKE_CELL_FOOD then snake_initialize ctx rs
          else
            case put_cell_at ctx prev_xpos prev_ypos dir_as_cell of
              Inl e \<Rightarrow> Inl e
            | Inr ctx1 \<Rightarrow>
                (case put_cell_at ctx1 (head_xpos ctx1) (head_ypos ctx1) dir_as_cell of
                   Inl e \<Rightarrow> Inl e
                 | Inr ctx2 \<Rightarrow>
                     if ct = SNAKE_CELL_FOOD then
                       if are_cells_full ctx2 then snake_initialize ctx2 rs
                       else
                         case new_food_pos ctx2 rs of
                           Inl e \<Rightarrow> Inl e
                         | Inr (ctx3, rs') \<Rightarrow>
                             Inr ((ctx3\<lparr>inhibit_tail_step := inhibit_tail_step ctx3 + 1,
                                        occupied_cells := occupied_cells ctx3 + 1\<rparr>), rs')
                     else Inr (ctx2, rs)))"

definition snake_step :: "SnakeContext \<Rightarrow> nat list \<Rightarrow> fault + (SnakeContext \<times> nat list)" where
  "snake_step ctx rs =
     (let dir_as_cell = dir_value (next_dir ctx) + 1 in
      case step_tail ctx of
        Inl e \<Rightarrow> Inl e
      | Inr ctx1 \<Rightarrow>
          let prev_xpos = head_xpos ctx1;
              prev_ypos = head_ypos ctx1
          in step_collide dir_as_cell prev_xpos prev_ypos (step_head ctx1) rs)"

subsection \<open>The catch-up loop of the frame driver\<close>

text \<open>
  The \<^verbatim>\<open>while\<close> loop of \<^verbatim>\<open>SDL_AppIterate\<close>. \<open>now\<close> is the value \<^verbatim>\<open>SDL_GetTicks\<close>
  returned for the frame, \<open>last_step\<close> the member of \<^verbatim>\<open>AppState\<close>. The subtraction is
  the one of \<^verbatim>\<open>Uint64\<close>.
\<close>

function catch_up :: "Uint64 \<Rightarrow> SnakeContext \<Rightarrow> nat list \<Rightarrow> Uint64 \<Rightarrow>
    fault + (SnakeContext \<times> nat list \<times> Uint64)" where
  "catch_up now ctx rs last_step =
     (if now - last_step \<ge> STEP_RATE_IN_MILLISECONDS then
        case snake_step ctx rs of
          Inl e \<Rightarrow> Inl e
        | Inr (ctx', rs') \<Rightarrow> catch_up now ctx' rs' (last_step + STEP_RATE_IN_MILLISECONDS)
      else Inr (ctx, rs, last_step))"
  by pat_completeness auto
termination
proof (relation "measure (\<lambda>(now, ctx, rs, last_step). unat (now - last_step))")
  show "wf (measure (\<lambda>(now, ctx, rs, last_step). unat (now - last_step)))"
    by simp
next
  fix now :: Uint64 and ctx :: SnakeContext and rs :: "nat list" and last_step :: Uint64
    and x2 :: "SnakeContext \<times> nat list" and ctx' :: SnakeContext and rs' :: "nat list"
  assume le: "STEP_RATE_IN_MILLISECONDS \<le> now - last_step"
  have eq: "now - (last_step + STEP_RATE_IN_MILLISECONDS) = (now - last_step) - STEP_RATE_IN_MILLISECONDS"
    by simp
  have "unat ((now - last_step) - STEP_RATE_IN_MILLISECONDS)
      = unat (now - last_step) - unat STEP_RATE_IN_MILLISECONDS"
    using le by (simp add: unat_sub)
  moreover have "unat STEP_RATE_IN_MILLISECONDS = 125"
    by (simp add: STEP_RATE_IN_MILLISECONDS_def)
  moreover have "125 \<le> unat (now - last_step)"
    using le by (simp add: word_le_nat_alt STEP_RATE_IN_MILLISECONDS_def)
  ultimately have "unat ((now - last_step) - STEP_RATE_IN_MILLISECONDS) < unat (now - last_step)"
    by arith
  then have "unat (now - (last_step + STEP_RATE_IN_MILLISECONDS)) < unat (now - last_step)"
    by (simp only: eq)
  then show "((now, ctx', rs', last_step + STEP_RATE_IN_MILLISECONDS),
      (now, ctx, rs, last_step)) \<in> measure (\<lambda>(now, ctx, rs, last_step). unat (now - last_step))"
    by simp
qed

subsection \<open>Notions used to state the properties\<close>

text \<open>
  The bytes that the two-byte window of an accessor can reach: the array \<^verbatim>\<open>cells\<close> and,
  at index \<open>CELLS_SIZE\<close>, the member \<^verbatim>\<open>head_xpos\<close> behind it; and their bits, numbered
  from the least significant bit of \<^verbatim>\<open>cells[0]\<close>.
\<close>

definition obj_byte :: "SnakeContext \<Rightarrow> nat \<Rightarrow> uchar" where
  "obj_byte ctx i = (if i < CELLS_SIZE then cells ctx ! i else head_xpos ctx)"

definition obj_bit :: "SnakeContext \<Rightarrow> nat \<Rightarrow> bool" where
  "obj_bit ctx n \<longleftrightarrow> bit (obj_byte ctx (n div 8)) (n mod 8)"

text \<open>The array \<^verbatim>\<open>cells\<close> has its declared length.\<close>

definition cells_ok :: "SnakeContext \<Rightarrow> bool" where
  "cells_ok ctx \<longleftrightarrow> length (cells ctx) = CELLS_SIZE"

text \<open>A coordinate pair of the playfield, and the number of its cell in row-major order.\<close>

definition in_grid :: "c_char \<Rightarrow> c_char \<Rightarrow> bool" where
  "in_grid x y \<longleftrightarrow>
     0 \<le> sint x \<and> sint x < int SNAKE_GAME_WIDTH \<and> 0 \<le> sint y \<and> sint y < int SNAKE_GAME_HEIGHT"

definition cell_index :: "c_char \<Rightarrow> c_char \<Rightarrow> nat" where
  "cell_index x y = nat (sint x + sint y * int SNAKE_GAME_WIDTH)"

text \<open>The three bits of cell number \<open>i\<close>, as a cell code.\<close>

definition cell_code :: "SnakeContext \<Rightarrow> nat \<Rightarrow> SnakeCell" where
  "cell_code ctx i = horner_sum of_bool 2 (map (\<lambda>j. obj_bit ctx (3 * i + j)) [0..<3])"

text \<open>
  Both bytes of the window of the cell at \<open>(x, y)\<close> are elements of the array \<^verbatim>\<open>cells\<close>.
\<close>

definition window_inside :: "c_char \<Rightarrow> c_char \<Rightarrow> bool" where
  "window_inside x y \<longleftrightarrow> 0 \<le> SHIFT x y div 8 \<and> SHIFT x y div 8 + 1 < int CELLS_SIZE"

text \<open>
  The context as \<^verbatim>\<open>SDL_calloc\<close> leaves it in \<^verbatim>\<open>SDL_AppInit\<close>: every byte is zero.
\<close>

definition blank_context :: SnakeContext where
  "blank_context =
     \<lparr>cells = replicate CELLS_SIZE 0, head_xpos = 0, head_ypos = 0, tail_xpos = 0, tail_ypos = 0,
      next_dir = SNAKE_DIR_RIGHT, inhibit_tail_step = 0, occupied_cells = 0\<rparr>"

text \<open>
  The unit step that a cell code stands for: a body cell moves the tail by it, and the
  head moves by the step of the cell code \<open>next_dir + 1\<close>.
\<close>

definition cell_dx :: "SnakeCell \<Rightarrow> int" where
  "cell_dx ct = (if ct = SNAKE_CELL_SRIGHT then 1 else if ct = SNAKE_CELL_SLEFT then - 1 else 0)"

definition cell_dy :: "SnakeCell \<Rightarrow> int" where
  "cell_dy ct = (if ct = SNAKE_CELL_SUP then - 1 else if ct = SNAKE_CELL_SDOWN then 1 else 0)"

text \<open>The array has its length, and head and tail are on the playfield.\<close>

definition grid_ok :: "SnakeContext \<Rightarrow> bool" where
  "grid_ok ctx \<longleftrightarrow>
     cells_ok ctx \<and> in_grid (head_xpos ctx) (head_ypos ctx) \<and> in_grid (tail_xpos ctx) (tail_ypos ctx)"

text \<open>
  Two observations of a call of \<^verbatim>\<open>snake_step\<close>: the cell that it finds under the new head
  (the value of \<^verbatim>\<open>ct\<close> at the collision test), and the context in which it calls
  \<^verbatim>\<open>new_food_pos_\<close> (tail and head moved, both body cells written).
\<close>

definition found_at_head :: "SnakeContext \<Rightarrow> fault + SnakeCell" where
  "found_at_head ctx =
     (case step_tail ctx of
        Inl e \<Rightarrow> Inl e
      | Inr ctx1 \<Rightarrow>
          snake_cell_at (step_head ctx1) (head_xpos (step_head ctx1)) (head_ypos (step_head ctx1)))"

definition step_before_food :: "SnakeContext \<Rightarrow> fault + SnakeContext" where
  "step_before_food ctx =
     (case step_tail ctx of
        Inl e \<Rightarrow> Inl e
      | Inr ctx1 \<Rightarrow>
          (case put_cell_at (step_head ctx1) (head_xpos ctx1) (head_ypos ctx1)
                  (dir_value (next_dir ctx) + 1) of
             Inl e \<Rightarrow> Inl e
           | Inr ctx2 \<Rightarrow>
               put_cell_at ctx2 (head_xpos ctx2) (head_ypos ctx2) (dir_value (next_dir ctx) + 1)))"

text \<open>
  The body cell that points in the exact opposite of a requested direction, and a sequence
  of calls of \<^verbatim>\<open>snake_redir\<close>, as the key events between two steps make them.
\<close>

fun opposite_cell :: "SnakeDirection \<Rightarrow> SnakeCell" where
  "opposite_cell SNAKE_DIR_RIGHT = SNAKE_CELL_SLEFT"
| "opposite_cell SNAKE_DIR_UP = SNAKE_CELL_SDOWN"
| "opposite_cell SNAKE_DIR_LEFT = SNAKE_CELL_SRIGHT"
| "opposite_cell SNAKE_DIR_DOWN = SNAKE_CELL_SUP"

fun snake_redirs :: "SnakeContext \<Rightarrow> SnakeDirection list \<Rightarrow> fault + SnakeContext" where
  "snake_redirs ctx [] = Inr ctx"
| "snake_redirs ctx (d # ds) =
     (case snake_redir ctx d of Inl e \<Rightarrow> Inl e | Inr ctx' \<Rightarrow> snake_redirs ctx' ds)"

text \<open>
  \<open>n\<close> calls of \<^verbatim>\<open>snake_step\<close> in a row, and the number of steps that are due at the time
  \<open>now\<close> when the last step was made at \<open>last_step\<close> (the difference is that of
  \<^verbatim>\<open>Uint64\<close>; the clock of \<^verbatim>\<open>SDL_GetTicks\<close> does not run backwards, so it is the elapsed
  time).
\<close>

fun snake_steps :: "nat \<Rightarrow> SnakeContext \<Rightarrow> nat list \<Rightarrow> fault + (SnakeContext \<times> nat list)" where
  "snake_steps 0 ctx rs = Inr (ctx, rs)"
| "snake_steps (Suc n) ctx rs =
     (case snake_step ctx rs of Inl e \<Rightarrow> Inl e | Inr (ctx', rs') \<Rightarrow> snake_steps n ctx' rs')"

definition due_steps :: "Uint64 \<Rightarrow> Uint64 \<Rightarrow> nat" where
  "due_steps now last_step = unat (now - last_step) div unat STEP_RATE_IN_MILLISECONDS"

text \<open>
  The four direction codes are the body cells. The body cells of a context are the
  coordinates of the playfield that hold one; their number is the visible length of the
  snake.
\<close>

definition is_body :: "SnakeCell \<Rightarrow> bool" where
  "is_body ct \<longleftrightarrow>
     ct = SNAKE_CELL_SRIGHT \<or> ct = SNAKE_CELL_SUP \<or> ct = SNAKE_CELL_SLEFT \<or> ct = SNAKE_CELL_SDOWN"


text \<open>
  A call of \<^verbatim>\<open>snake_step\<close> ends in a reset when the cell that it finds under the new head is
  neither empty nor food (the test before the first call of \<^verbatim>\<open>snake_initialize\<close> in
  \<^verbatim>\<open>snake_step\<close>), or is food while every cell is occupied (the test before the second).
\<close>

definition step_resets :: "SnakeContext \<Rightarrow> bool" where
  "step_resets ctx \<longleftrightarrow>
     (case found_at_head ctx of
        Inl e \<Rightarrow> False
      | Inr ct \<Rightarrow>
          (ct \<noteq> SNAKE_CELL_NOTHING \<and> ct \<noteq> SNAKE_CELL_FOOD) \<or>
          (ct = SNAKE_CELL_FOOD \<and> are_cells_full ctx))"

text \<open>
  A run of the game, as \<^verbatim>\<open>SDL_AppInit\<close>, \<^verbatim>\<open>handle_key_event_\<close> and \<^verbatim>\<open>SDL_AppIterate\<close> call
  the three operations: \<open>Restart\<close> is a call of \<^verbatim>\<open>snake_initialize\<close> (at start-up, and on
  the key R), \<open>Turn d\<close> a call of \<^verbatim>\<open>snake_redir\<close> (an arrow key), and \<open>Tick\<close> a call of
  \<^verbatim>\<open>snake_step\<close>. The states of the runs that start with \<open>Restart\<close> from the zeroed context
  are the states that the game reaches.
\<close>

datatype event = Tick | Turn SnakeDirection | Restart

fun snake_play :: "SnakeContext \<Rightarrow> nat list \<Rightarrow> event list \<Rightarrow> fault + (SnakeContext \<times> nat list)" where
  "snake_play ctx rs [] = Inr (ctx, rs)"
| "snake_play ctx rs (Tick # es) =
     (case snake_step ctx rs of Inl e \<Rightarrow> Inl e | Inr (ctx', rs') \<Rightarrow> snake_play ctx' rs' es)"
| "snake_play ctx rs (Turn d # es) =
     (case snake_redir ctx d of Inl e \<Rightarrow> Inl e | Inr ctx' \<Rightarrow> snake_play ctx' rs es)"
| "snake_play ctx rs (Restart # es) =
     (case snake_initialize ctx rs of Inl e \<Rightarrow> Inl e | Inr (ctx', rs') \<Rightarrow> snake_play ctx' rs' es)"

subsection \<open>Example contexts\<close>

text \<open>
  A snake about to run into itself: the head at \<open>(5, 5)\<close> moves right, and the cell at
  \<open>(6, 5)\<close> is a body cell (\<^verbatim>\<open>SNAKE_CELL_SUP\<close>).
\<close>

definition collision_context :: SnakeContext where
  "collision_context =
     \<lparr>cells = (replicate CELLS_SIZE 0)[46 := 128, 47 := 8],
      head_xpos = 5, head_ypos = 5, tail_xpos = 6, tail_ypos = 5,
      next_dir = SNAKE_DIR_RIGHT, inhibit_tail_step = 2, occupied_cells = 8\<rparr>"

text \<open>
  A snake at the edges: the head at \<open>(23, 0)\<close> moves right, the tail at \<open>(0, 17)\<close> is a
  body cell that points left (\<^verbatim>\<open>SNAKE_CELL_SLEFT\<close>), and the growth-inhibit counter is 1.
\<close>

definition edge_context :: SnakeContext where
  "edge_context =
     \<lparr>cells = (replicate CELLS_SIZE 0)[8 := 32, 153 := 3],
      head_xpos = 23, head_ypos = 0, tail_xpos = 0, tail_ypos = 17,
      next_dir = SNAKE_DIR_RIGHT, inhibit_tail_step = 1, occupied_cells = 8\<rparr>"

section \<open>Properties\<close>

subsection \<open>The packed store\<close>

lemmas grid_consts = SNAKE_MATRIX_SIZE_def SNAKE_GAME_WIDTH_def SNAKE_GAME_HEIGHT_def
  SNAKE_CELL_MAX_BITS_def

lemma three_bits_mask: "THREE_BITS = mask 3"
  by (simp add: THREE_BITS_def mask_eq_exp_minus_1)

lemma bit_three_bits: "bit THREE_BITS n \<longleftrightarrow> n < 3"
  by (auto simp add: three_bits_mask bit_simps)




lemma cells_size: "CELLS_SIZE = 162"
  by (simp add: CELLS_SIZE_def SNAKE_MATRIX_SIZE_def SNAKE_GAME_WIDTH_def SNAKE_GAME_HEIGHT_def SNAKE_CELL_MAX_BITS_def)

lemma memcpy_from_cells_bytes:
  assumes "k + 1 \<le> CELLS_SIZE"
  shows "memcpy_from_cells ctx (int k) = Inr (word_cat (obj_byte ctx (k + 1)) (obj_byte ctx k))"
  using assms by (auto simp add: memcpy_from_cells_def obj_byte_def nat_add_distrib)

lemma bit_two_bytes:
  "bit (word_cat (hi :: uchar) (lo :: uchar) :: ushort) j \<longleftrightarrow>
     (if j < 8 then bit lo j else j < 16 \<and> bit hi (j - 8))"
  by (auto simp add: bit_word_cat_iff dest: bit_imp_le_length)

lemma obj_bit_window:
  assumes "j < 16"
  shows "obj_bit ctx (8 * k + j) \<longleftrightarrow> (if j < 8 then bit (obj_byte ctx k) j else bit (obj_byte ctx (k + 1)) (j - 8))"
proof (cases "j < 8")
  case True
  then show ?thesis by (simp add: obj_bit_def)
next
  case False
  with assms have "(8 * k + j) div 8 = k + 1" "(8 * k + j) mod 8 = j - 8"
    by (simp_all add: div_nat_eqI mod_nat_eqI)
  with False show ?thesis by (simp add: obj_bit_def)
qed

lemma memcpy_from_cells_bits:
  assumes "k + 1 \<le> CELLS_SIZE"
  shows "\<exists>r. memcpy_from_cells ctx (int k) = Inr r \<and> (\<forall>j. bit r j \<longleftrightarrow> j < 16 \<and> obj_bit ctx (8 * k + j))"
  using assms by (auto simp add: memcpy_from_cells_bytes bit_two_bytes obj_bit_window)

lemma memcpy_to_cells_bytes:
  assumes "k + 1 \<le> CELLS_SIZE" and "cells_ok ctx"
  shows "\<exists>ctx'. memcpy_to_cells ctx (int k) r = Inr ctx' \<and> cells_ok ctx' \<and>
           ctx' = ctx\<lparr>cells := cells ctx', head_xpos := head_xpos ctx'\<rparr> \<and>
           (\<forall>i\<le>CELLS_SIZE. obj_byte ctx' i =
              (if i = k then ucast r else if i = k + 1 then ucast (drop_bit 8 r) else obj_byte ctx i))"
  using assms
  by (auto simp add: memcpy_to_cells_def obj_byte_def cells_ok_def nat_add_distrib nth_list_update)


lemma memcpy_to_cells_bits:
  assumes k: "k + 1 \<le> CELLS_SIZE" and ok: "cells_ok ctx"
  shows "\<exists>ctx'. memcpy_to_cells ctx (int k) r = Inr ctx' \<and> cells_ok ctx' \<and>
           ctx' = ctx\<lparr>cells := cells ctx', head_xpos := head_xpos ctx'\<rparr> \<and>
           (\<forall>n<8 * (CELLS_SIZE + 1). obj_bit ctx' n =
              (if 8 * k \<le> n \<and> n < 8 * k + 16 then bit r (n - 8 * k) else obj_bit ctx n))"
proof -
  from memcpy_to_cells_bytes [OF k ok, of r] obtain ctx' where
    st: "memcpy_to_cells ctx (int k) r = Inr ctx'" and ok': "cells_ok ctx'" and
    fr: "ctx' = ctx\<lparr>cells := cells ctx', head_xpos := head_xpos ctx'\<rparr>" and
    bytes: "\<And>i. i \<le> CELLS_SIZE \<Longrightarrow> obj_byte ctx' i =
              (if i = k then ucast r else if i = k + 1 then ucast (drop_bit 8 r) else obj_byte ctx i)"
    by blast
  from k have bk: "obj_byte ctx' k = ucast r"
    and bk1: "obj_byte ctx' (Suc k) = ucast (drop_bit 8 r)"
    by (simp_all add: bytes)
  have "obj_bit ctx' n = (if 8 * k \<le> n \<and> n < 8 * k + 16 then bit r (n - 8 * k) else obj_bit ctx n)"
    if n: "n < 8 * (CELLS_SIZE + 1)" for n
  proof -
    from n have le: "n div 8 \<le> CELLS_SIZE" by simp
    have m: "n mod 8 < 8" by simp
    have dm: "n = 8 * (n div 8) + n mod 8" by simp
    consider (lo) "n div 8 = k" | (hi) "n div 8 = k + 1" | (other) "n div 8 \<noteq> k" "n div 8 \<noteq> k + 1"
      by blast
    then show ?thesis
    proof cases
      case lo
      with dm m have "8 * k \<le> n" "n < 8 * k + 16" "n - 8 * k = n mod 8"
        by arith+
      then show ?thesis using lo m by (simp add: obj_bit_def bk bit_ucast_iff)
    next
      case hi
      with dm m have "8 * k \<le> n" "n < 8 * k + 16" "n - 8 * k = 8 + n mod 8"
        by arith+
      then show ?thesis using hi m by (simp add: obj_bit_def bk1 bit_ucast_iff bit_drop_bit_eq)
    next
      case other
      with dm m have "\<not> (8 * k \<le> n \<and> n < 8 * k + 16)"
        by arith
      moreover from other le have "obj_byte ctx' (n div 8) = obj_byte ctx (n div 8)"
        by (simp add: bytes)
      ultimately show ?thesis by (auto simp add: obj_bit_def)
    qed
  qed
  with st ok' fr show ?thesis by blast
qed





lemma bit_cell_code: "bit (cell_code ctx i) j \<longleftrightarrow> j < 3 \<and> obj_bit ctx (3 * i + j)"
  by (auto simp add: cell_code_def bit_horner_sum_bit_iff simp del: upt_Suc)

lemma in_grid_index:
  assumes "in_grid x y"
  shows "cell_index x y < SNAKE_MATRIX_SIZE" and "SHIFT x y = int (3 * cell_index x y)"
  using assms
  by (auto simp add: in_grid_def cell_index_def SHIFT_def SNAKE_MATRIX_SIZE_def
      SNAKE_GAME_WIDTH_def SNAKE_GAME_HEIGHT_def SNAKE_CELL_MAX_BITS_def)

lemma cell_index_inj:
  assumes "in_grid x y" and "in_grid x' y'" and "cell_index x y = cell_index x' y'"
  shows "x = x' \<and> y = y'"
proof -
  from assms(1,2) have "(0::int) \<le> sint x + sint y * 24" "(0::int) \<le> sint x' + sint y' * 24"
    by (simp_all add: in_grid_def)
  with assms(3) have "sint x + sint y * 24 = sint x' + sint y' * 24"
    by (simp add: cell_index_def SNAKE_GAME_WIDTH_def)
  moreover from assms(1,2) have "0 \<le> sint x \<and> sint x < 24 \<and> 0 \<le> sint x' \<and> sint x' < 24"
    by (simp add: in_grid_def SNAKE_GAME_WIDTH_def)
  ultimately have "sint x = sint x' \<and> sint y = sint y'"
    by arith
  then show ?thesis by (blast intro: signed_word_eqI)
qed

lemma window_in_object:
  assumes "i < SNAKE_MATRIX_SIZE"
  shows "(3 * i) div 8 + 1 \<le> CELLS_SIZE"
  using assms by (simp add: cells_size SNAKE_MATRIX_SIZE_def SNAKE_GAME_WIDTH_def SNAKE_GAME_HEIGHT_def)

lemma snake_cell_at_code:
  assumes "in_grid x y"
  shows "snake_cell_at ctx x y = Inr (cell_code ctx (cell_index x y))"
proof -
  let ?i = "cell_index x y"
  let ?k = "(3 * ?i) div 8"
  let ?a = "(3 * ?i) mod 8"
  from in_grid_index [OF assms] have i: "?i < SNAKE_MATRIX_SIZE" and sh: "SHIFT x y = int (3 * ?i)"
    by simp_all
  from memcpy_from_cells_bits [OF window_in_object [OF i], of ctx] obtain r where
    ld: "memcpy_from_cells ctx (int ?k) = Inr r" and
    bits: "\<And>j. bit r j \<longleftrightarrow> j < 16 \<and> obj_bit ctx (8 * ?k + j)"
    by blast
  have "(ucast (drop_bit ?a r) AND THREE_BITS :: uint) = cell_code ctx ?i"
  proof (rule bit_word_eqI)
    fix j
    assume "j < LENGTH(32)"
    have a: "?a < 8" by simp
    have "8 * ?k + ?a = 3 * ?i" by simp
    then have "8 * ?k + (?a + j) = 3 * ?i + j" by arith
    then show "bit (ucast (drop_bit ?a r) AND THREE_BITS :: uint) j = bit (cell_code ctx ?i) j"
      using a by (auto simp add: bit_simps bit_three_bits bit_cell_code bits)
  qed
  moreover have "SHIFT x y div 8 = int ?k" and "nat (SHIFT x y mod 8) = ?a" and "\<not> SHIFT x y < 0"
    unfolding sh by (simp_all add: zdiv_int zmod_int nat_mod_distrib nat_mult_distrib)
  ultimately show ?thesis using ld
    by (simp add: snake_cell_at_def)
qed


lemma put_cell_at_bits:
  assumes g: "in_grid x y" and ok: "cells_ok ctx"
  shows "\<exists>ctx'. put_cell_at ctx x y ct = Inr ctx' \<and> cells_ok ctx' \<and>
           ctx' = ctx\<lparr>cells := cells ctx', head_xpos := head_xpos ctx'\<rparr> \<and>
           (\<forall>n<8 * (CELLS_SIZE + 1). obj_bit ctx' n =
              (if 3 * cell_index x y \<le> n \<and> n < 3 * cell_index x y + 3
               then bit ct (n - 3 * cell_index x y) else obj_bit ctx n))"
proof -
  let ?i = "cell_index x y"
  let ?k = "(3 * ?i) div 8"
  let ?a = "(3 * ?i) mod 8"
  from in_grid_index [OF g] have i: "?i < SNAKE_MATRIX_SIZE" and sh: "SHIFT x y = int (3 * ?i)"
    by simp_all
  have shs: "SHIFT x y div 8 = int ?k" "nat (SHIFT x y mod 8) = ?a" "\<not> SHIFT x y < 0"
    unfolding sh by (simp_all add: zdiv_int zmod_int nat_mod_distrib nat_mult_distrib)
  have a: "?a < 8" by simp
  have ka: "8 * ?k + ?a = 3 * ?i" by simp
  from memcpy_from_cells_bits [OF window_in_object [OF i], of ctx] obtain r where
    ld: "memcpy_from_cells ctx (int ?k) = Inr r" and
    bits: "\<And>j. bit r j \<longleftrightarrow> j < 16 \<and> obj_bit ctx (8 * ?k + j)"
    by blast
  define r2 :: ushort where
    "r2 = ucast ((ucast (ucast ((ucast r :: uint) AND NOT (push_bit ?a THREE_BITS)) :: ushort) :: uint)
            OR push_bit ?a (ct AND THREE_BITS))"
  have r2: "bit r2 j \<longleftrightarrow> j < 16 \<and> (if ?a \<le> j \<and> j < ?a + 3 then bit ct (j - ?a) else bit r j)" for j
    using a by (auto simp add: r2_def bit_simps bit_three_bits dest: bit_imp_le_length)
  from memcpy_to_cells_bits [OF window_in_object [OF i] ok, of r2] obtain ctx' where
    st: "memcpy_to_cells ctx (int ?k) r2 = Inr ctx'" and ok': "cells_ok ctx'" and
    fr: "ctx' = ctx\<lparr>cells := cells ctx', head_xpos := head_xpos ctx'\<rparr>" and
    obits: "\<And>n. n < 8 * (CELLS_SIZE + 1) \<Longrightarrow> obj_bit ctx' n =
              (if 8 * ?k \<le> n \<and> n < 8 * ?k + 16 then bit r2 (n - 8 * ?k) else obj_bit ctx n)"
    by blast
  have put: "put_cell_at ctx x y ct = Inr ctx'"
    using ld st by (simp add: put_cell_at_def shs r2_def Let_def)
  have "obj_bit ctx' n = (if 3 * ?i \<le> n \<and> n < 3 * ?i + 3 then bit ct (n - 3 * ?i) else obj_bit ctx n)"
    if n: "n < 8 * (CELLS_SIZE + 1)" for n
  proof (cases "8 * ?k \<le> n \<and> n < 8 * ?k + 16")
    case True
    then have "8 * ?k + (n - 8 * ?k) = n" "n - 8 * ?k < 16" by arith+
    moreover have "(?a \<le> n - 8 * ?k \<and> n - 8 * ?k < ?a + 3) \<longleftrightarrow> (3 * ?i \<le> n \<and> n < 3 * ?i + 3)"
      using True ka by arith
    moreover have "n - 8 * ?k - ?a = n - 3 * ?i"
      using ka by arith
    ultimately show ?thesis
      using True by (simp add: obits [OF n] r2 bits)
  next
    case False
    with ka a have "\<not> (3 * ?i \<le> n \<and> n < 3 * ?i + 3)" by arith
    with False show ?thesis by (auto simp add: obits [OF n])
  qed
  with put ok' fr show ?thesis by blast
qed


lemma put_cell_at_code:
  assumes g: "in_grid x y" and ok: "cells_ok ctx"
  shows "\<exists>ctx'. put_cell_at ctx x y ct = Inr ctx' \<and> cells_ok ctx' \<and>
           ctx' = ctx\<lparr>cells := cells ctx'\<rparr> \<and>
           (\<forall>i<SNAKE_MATRIX_SIZE. cell_code ctx' i =
              (if i = cell_index x y then ct AND THREE_BITS else cell_code ctx i))"
proof -
  let ?i = "cell_index x y"
  from in_grid_index [OF g] have i: "?i < SNAKE_MATRIX_SIZE" by simp
  from put_cell_at_bits [OF g ok, of ct] obtain ctx' where
    put: "put_cell_at ctx x y ct = Inr ctx'" and ok': "cells_ok ctx'" and
    fr: "ctx' = ctx\<lparr>cells := cells ctx', head_xpos := head_xpos ctx'\<rparr>" and
    obits: "\<And>n. n < 8 * (CELLS_SIZE + 1) \<Longrightarrow> obj_bit ctx' n =
              (if 3 * ?i \<le> n \<and> n < 3 * ?i + 3 then bit ct (n - 3 * ?i) else obj_bit ctx n)"
    by blast
  have "head_xpos ctx' = head_xpos ctx"
  proof (rule bit_word_eqI)
    fix m
    assume "m < LENGTH(8)"
    then have m: "m < 8" by simp
    then have "(8 * CELLS_SIZE + m) div 8 = CELLS_SIZE" "(8 * CELLS_SIZE + m) mod 8 = m"
      by simp_all
    then have "obj_bit c (8 * CELLS_SIZE + m) = bit (head_xpos c) m" for c
      by (simp add: obj_bit_def obj_byte_def)
    moreover from i m have "\<not> (3 * ?i \<le> 8 * CELLS_SIZE + m \<and> 8 * CELLS_SIZE + m < 3 * ?i + 3)"
      by (simp add: cells_size SNAKE_MATRIX_SIZE_def SNAKE_GAME_WIDTH_def SNAKE_GAME_HEIGHT_def)
    moreover from m have "8 * CELLS_SIZE + m < 8 * (CELLS_SIZE + 1)" by simp
    ultimately show "bit (head_xpos ctx') m = bit (head_xpos ctx) m"
      using obits [of "8 * CELLS_SIZE + m"] by auto
  qed
  with fr have fr': "ctx' = ctx\<lparr>cells := cells ctx'\<rparr>"
    by (metis SnakeContext.surjective SnakeContext.update_convs(1,2))
  have "cell_code ctx' j = (if j = ?i then ct AND THREE_BITS else cell_code ctx j)"
    if j: "j < SNAKE_MATRIX_SIZE" for j
  proof (rule bit_word_eqI)
    fix m
    assume "m < LENGTH(32)"
    show "bit (cell_code ctx' j) m = bit (if j = ?i then ct AND THREE_BITS else cell_code ctx j) m"
    proof (cases "m < 3")
      case True
      with j have "3 * j + m < 8 * (CELLS_SIZE + 1)"
        by (simp add: cells_size SNAKE_MATRIX_SIZE_def SNAKE_GAME_WIDTH_def SNAKE_GAME_HEIGHT_def)
      moreover from True have "(3 * ?i \<le> 3 * j + m \<and> 3 * j + m < 3 * ?i + 3) \<longleftrightarrow> j = ?i"
        by arith
      ultimately show ?thesis using True
        by (simp add: bit_cell_code obits bit_simps bit_three_bits)
    next
      case False
      then show ?thesis by (simp add: bit_cell_code bit_simps bit_three_bits)
    qed
  qed
  with put ok' fr' show ?thesis by blast
qed

lemma window_inside_iff:
  assumes "in_grid x y"
  shows "window_inside x y \<longleftrightarrow> cell_index x y < 430"
proof -
  from in_grid_index [OF assms] have "SHIFT x y = int (3 * cell_index x y)" by simp
  then have "SHIFT x y div 8 = int (3 * cell_index x y div 8)"
    by (simp add: zdiv_int)
  then show ?thesis
    by (simp add: window_inside_def cells_size) arith
qed

text \<open>
  Claim C5 says that for every in-bounds coordinate the two-byte window of
  \<^verbatim>\<open>snake_cell_at\<close> and \<^verbatim>\<open>put_cell_at_\<close> lies inside the 162 bytes of \<^verbatim>\<open>cells\<close>.
  At \<open>(23, 17)\<close>, the last cell of the playfield, it does not: the window starts at
  \<^verbatim>\<open>cells[161]\<close>, and its second byte, at index 162, is the member \<^verbatim>\<open>head_xpos\<close> behind
  the array, which the read copies from and the write copies to. (The same holds at
  \<open>(22, 17)\<close>; \<open>window_inside_iff\<close> says that these are the only two cells.)
\<close>

theorem two_byte_window_overrun:
  "in_grid 23 17 \<and> \<not> window_inside 23 17 \<and>
   SHIFT 23 17 div 8 + 1 = int CELLS_SIZE \<and>
   memcpy_from_cells ctx (SHIFT 23 17 div 8) = Inr (word_cat (head_xpos ctx) (cells ctx ! 161)) \<and>
   memcpy_to_cells ctx (SHIFT 23 17 div 8) rng =
     Inr (ctx\<lparr>cells := (cells ctx)[161 := ucast rng], head_xpos := ucast (drop_bit 8 rng)\<rparr>)"
  by (simp add: in_grid_def window_inside_def SHIFT_def cells_size grid_consts
      memcpy_from_cells_def memcpy_to_cells_def)

lemma cell_code_le: "ct \<le> 5 \<Longrightarrow> ct AND THREE_BITS = (ct :: SnakeCell)"
proof -
  assume "ct \<le> 5"
  then have "ct < 2 ^ 3" by (simp add: word_le_nat_alt word_less_nat_alt)
  then show ?thesis unfolding three_bits_mask by (rule less_mask_eq)
qed

text \<open>
  Claim C6: for every in-bounds coordinate \<open>(x, y)\<close> and every cell code \<open>ct\<close> from 0 to 5,
  \<^verbatim>\<open>snake_cell_at\<close> after \<^verbatim>\<open>put_cell_at_(x, y, ct)\<close> returns \<open>ct\<close>, the value read at every
  other in-bounds coordinate is unchanged, and so is every other member of the context
  (\<^verbatim>\<open>head_xpos\<close> included, which the window of the last two cells covers).
\<close>

theorem put_then_get:
  assumes g: "in_grid x y" and ok: "cells_ok ctx" and ct: "ct \<le> SNAKE_CELL_FOOD"
  shows "\<exists>ctx'. put_cell_at ctx x y ct = Inr ctx' \<and>
           snake_cell_at ctx' x y = Inr ct \<and>
           (\<forall>x' y'. in_grid x' y' \<and> (x', y') \<noteq> (x, y) \<longrightarrow>
              snake_cell_at ctx' x' y' = snake_cell_at ctx x' y') \<and>
           ctx' = ctx\<lparr>cells := cells ctx'\<rparr> \<and> cells_ok ctx'"
proof -
  from put_cell_at_code [OF g ok, of ct] obtain ctx' where
    put: "put_cell_at ctx x y ct = Inr ctx'" and ok': "cells_ok ctx'" and
    fr: "ctx' = ctx\<lparr>cells := cells ctx'\<rparr>" and
    code: "\<And>i. i < SNAKE_MATRIX_SIZE \<Longrightarrow> cell_code ctx' i =
              (if i = cell_index x y then ct AND THREE_BITS else cell_code ctx i)"
    by blast
  from ct have same: "snake_cell_at ctx' x y = Inr ct"
    by (simp add: snake_cell_at_code [OF g] code in_grid_index [OF g] cell_code_le SNAKE_CELL_FOOD_def)
  have "snake_cell_at ctx' x' y' = snake_cell_at ctx x' y'"
    if "in_grid x' y'" and "(x', y') \<noteq> (x, y)" for x' y'
  proof -
    from that g have "cell_index x' y' \<noteq> cell_index x y"
      using cell_index_inj by blast
    with that(1) show ?thesis
      by (simp add: snake_cell_at_code code in_grid_index)
  qed
  with put same fr ok' show ?thesis by blast
qed

theorem put_then_get_witness:
  "in_grid 23 17 \<and> cells_ok blank_context \<and> SNAKE_CELL_FOOD \<le> SNAKE_CELL_FOOD \<and>
   (\<exists>ctx'. put_cell_at blank_context 23 17 SNAKE_CELL_FOOD = Inr ctx' \<and>
      snake_cell_at ctx' 23 17 = Inr SNAKE_CELL_FOOD \<and>
      snake_cell_at ctx' 22 17 = snake_cell_at blank_context 22 17 \<and>
      ctx' = blank_context\<lparr>cells := cells ctx'\<rparr>)"
proof -
  have g: "in_grid 23 17" and g': "in_grid 22 17"
    by (simp_all add: in_grid_def grid_consts)
  have ok: "cells_ok blank_context"
    by (simp add: cells_ok_def blank_context_def)
  have le: "SNAKE_CELL_FOOD \<le> SNAKE_CELL_FOOD"
    by simp
  from put_then_get [OF g ok le] obtain ctx' where
    "put_cell_at blank_context 23 17 SNAKE_CELL_FOOD = Inr ctx'"
    "snake_cell_at ctx' 23 17 = Inr SNAKE_CELL_FOOD"
    "\<forall>x' y'. in_grid x' y' \<and> (x', y') \<noteq> (23, 17) \<longrightarrow>
       snake_cell_at ctx' x' y' = snake_cell_at blank_context x' y'"
    "ctx' = blank_context\<lparr>cells := cells ctx'\<rparr>"
    by blast
  moreover from this(3) g' have "snake_cell_at ctx' 22 17 = snake_cell_at blank_context 22 17"
    by simp
  ultimately show ?thesis using g ok le by blast
qed

subsection \<open>Wrapping at the edges\<close>

lemma sint_char_inc:
  assumes "sint (v :: c_char) < 127"
  shows "sint (v + 1) = sint v + 1"
proof -
  have "- 128 \<le> sint v" using sint_ge [of v] by simp
  with assms show ?thesis
    by (simp add: sint_word_ariths signed_take_bit_int_eq_self)
qed

lemma sint_char_dec:
  assumes "- 128 < sint (v :: c_char)"
  shows "sint (v - 1) = sint v - 1"
proof -
  have "sint v < 128" using sint_lt [of v] by simp
  with assms show ?thesis
    by (simp add: sint_word_ariths signed_take_bit_int_eq_self)
qed

lemma wrap_around_inc:
  assumes "0 \<le> sint v" and "sint v < sint mx"
  shows "sint (wrap_around (v + 1) mx) = (sint v + 1) mod sint mx"
proof -
  have "sint mx < 128" using sint_lt [of mx] by simp
  with assms have v: "sint (v + 1) = sint v + 1" by (simp add: sint_char_inc)
  show ?thesis
  proof (cases "sint v + 1 = sint mx")
    case True
    with assms v show ?thesis
      by (simp add: wrap_around_def)
  next
    case False
    with assms v show ?thesis
      by (simp add: wrap_around_def)
  qed
qed

lemma wrap_around_dec:
  assumes "0 \<le> sint v" and "sint v < sint mx"
  shows "sint (wrap_around (v - 1) mx) = (sint v - 1) mod sint mx"
proof -
  from assms have v: "sint (v - 1) = sint v - 1" and m: "sint (mx - 1) = sint mx - 1"
    by (simp_all add: sint_char_dec)
  show ?thesis
  proof (cases "sint v = 0")
    case True
    with assms v m show ?thesis
      by (simp add: wrap_around_def zmod_minus1)
  next
    case False
    with assms v show ?thesis
      by (simp add: wrap_around_def)
  qed
qed

lemma wrap_around_same:
  assumes "0 \<le> sint v" and "sint v < sint mx"
  shows "wrap_around v mx = v"
  using assms by (simp add: wrap_around_def)

lemma sint_width: "sint (of_nat SNAKE_GAME_WIDTH :: c_char) = 24"
  by (simp add: SNAKE_GAME_WIDTH_def)

lemma sint_height: "sint (of_nat SNAKE_GAME_HEIGHT :: c_char) = 18"
  by (simp add: SNAKE_GAME_HEIGHT_def)

subsection \<open>Food placement and initialisation\<close>

lemma sint_of_nat_char:
  assumes "k < 128"
  shows "sint (of_nat k :: c_char) = int k"
  using assms by (simp add: signed_of_nat signed_take_bit_int_eq_self)

lemma in_grid_draw:
  "in_grid (of_nat (rx mod SNAKE_GAME_WIDTH)) (of_nat (ry mod SNAKE_GAME_HEIGHT))"
proof -
  have "rx mod SNAKE_GAME_WIDTH < 24" "ry mod SNAKE_GAME_HEIGHT < 18"
    by (simp_all add: grid_consts)
  then show ?thesis
    by (simp add: in_grid_def sint_of_nat_char grid_consts)
qed

lemma in_grid_of_index:
  assumes "i < SNAKE_MATRIX_SIZE"
  shows "in_grid (of_nat (i mod SNAKE_GAME_WIDTH)) (of_nat (i div SNAKE_GAME_WIDTH))"
    and "cell_index (of_nat (i mod SNAKE_GAME_WIDTH)) (of_nat (i div SNAKE_GAME_WIDTH)) = i"
proof -
  from assms have "i mod SNAKE_GAME_WIDTH < 24" "i div SNAKE_GAME_WIDTH < 18"
    by (simp_all add: grid_consts)
  then have s: "sint (of_nat (i mod SNAKE_GAME_WIDTH) :: c_char) = int (i mod SNAKE_GAME_WIDTH)"
    "sint (of_nat (i div SNAKE_GAME_WIDTH) :: c_char) = int (i div SNAKE_GAME_WIDTH)"
    by (simp_all add: sint_of_nat_char)
  from assms show "in_grid (of_nat (i mod SNAKE_GAME_WIDTH)) (of_nat (i div SNAKE_GAME_WIDTH))"
    unfolding in_grid_def s by (simp add: grid_consts)
  have "int (i mod SNAKE_GAME_WIDTH) + int (i div SNAKE_GAME_WIDTH) * int SNAKE_GAME_WIDTH = int i"
    by (metis mod_div_mult_eq of_nat_add of_nat_mult)
  then show "cell_index (of_nat (i mod SNAKE_GAME_WIDTH)) (of_nat (i div SNAKE_GAME_WIDTH)) = i"
    unfolding cell_index_def s by simp
qed

lemma cell_code_cong:
  assumes "cells c = cells c'" and "head_xpos c = head_xpos c'"
  shows "cell_code c = cell_code c'"
  using assms by (simp add: cell_code_def obj_bit_def obj_byte_def fun_eq_iff)

lemma cell_code_zero:
  assumes "cells ctx = replicate CELLS_SIZE 0" and "i < SNAKE_MATRIX_SIZE"
  shows "cell_code ctx i = 0"
proof (rule bit_word_eqI)
  fix m
  assume "m < LENGTH(32)"
  show "bit (cell_code ctx i) m = bit (0 :: uint) m"
  proof (cases "m < 3")
    case True
    with assms(2) have "(3 * i + m) div 8 < CELLS_SIZE"
      by (simp add: cells_size grid_consts)
    with assms(1) show ?thesis
      by (simp add: bit_cell_code obj_bit_def obj_byte_def)
  next
    case False
    then show ?thesis by (simp add: bit_cell_code)
  qed
qed

lemma new_food_pos_spec:
  assumes "cells_ok ctx" and "new_food_pos ctx rs = Inr (ctx', rs')"
  shows "\<exists>x y. in_grid x y \<and> cell_code ctx (cell_index x y) = SNAKE_CELL_NOTHING \<and>
           cells_ok ctx' \<and> ctx' = ctx\<lparr>cells := cells ctx'\<rparr> \<and>
           (\<forall>i<SNAKE_MATRIX_SIZE. cell_code ctx' i =
              (if i = cell_index x y then SNAKE_CELL_FOOD else cell_code ctx i))"
  using assms(2)
proof (induction rs rule: induct_list012)
  case 1
  then show ?case by simp
next
  case (2 r)
  then show ?case by simp
next
  case (3 rx ry rs)
  let ?x = "of_nat (rx mod SNAKE_GAME_WIDTH) :: c_char"
  let ?y = "of_nat (ry mod SNAKE_GAME_HEIGHT) :: c_char"
  have g: "in_grid ?x ?y" by (rule in_grid_draw)
  show ?case
  proof (cases "cell_code ctx (cell_index ?x ?y) = SNAKE_CELL_NOTHING")
    case True
    from put_cell_at_code [OF g assms(1), of SNAKE_CELL_FOOD] obtain c where
      put: "put_cell_at ctx ?x ?y SNAKE_CELL_FOOD = Inr c" and ok: "cells_ok c" and
      fr: "c = ctx\<lparr>cells := cells c\<rparr>" and
      code: "\<forall>i<SNAKE_MATRIX_SIZE. cell_code c i =
              (if i = cell_index ?x ?y then SNAKE_CELL_FOOD AND THREE_BITS else cell_code ctx i)"
      by blast
    from 3(3) True put have "ctx' = c"
      by (simp add: snake_cell_at_code [OF g] Let_def)
    moreover have "SNAKE_CELL_FOOD AND THREE_BITS = SNAKE_CELL_FOOD"
      by (simp add: SNAKE_CELL_FOOD_def cell_code_le)
    ultimately show ?thesis using g True ok fr code by auto
  next
    case False
    with 3(3) have "new_food_pos ctx rs = Inr (ctx', rs')"
      by (simp add: snake_cell_at_code [OF g] Let_def)
    then show ?thesis by (rule 3(1))
  qed
qed


declare initial_food.simps [simp del] catch_up.simps [simp del]

lemma initial_food_spec:
  assumes "cells_ok ctx" and "initial_food i ctx rs = Inr (ctx', rs')" and "i \<le> 4"
  shows "cells_ok ctx' \<and>
         ctx' = ctx\<lparr>cells := cells ctx', occupied_cells := occupied_cells ctx + of_int (4 - i)\<rparr> \<and>
         (\<exists>S. S \<subseteq> {j. j < SNAKE_MATRIX_SIZE \<and> cell_code ctx j = SNAKE_CELL_NOTHING} \<and>
              card S = nat (4 - i) \<and>
              (\<forall>j<SNAKE_MATRIX_SIZE. cell_code ctx' j =
                 (if j \<in> S then SNAKE_CELL_FOOD else cell_code ctx j)))"
  using assms
proof (induction i ctx rs rule: initial_food.induct)
  case (1 i ctx rs)
  show ?case
  proof (cases "i < 4")
    case False
    with "1.prems" have "i = 4" "ctx' = ctx" by (simp_all add: initial_food.simps [of i])
    then show ?thesis using "1.prems"(1) by auto
  next
    case True
    with "1.prems"(2) obtain c1 r1 where
      nf: "new_food_pos ctx rs = Inr (c1, r1)" and
      rest: "initial_food (i + 1) (c1\<lparr>occupied_cells := occupied_cells c1 + 1\<rparr>) r1 = Inr (ctx', rs')"
      by (auto simp add: initial_food.simps [of i] split: sum.splits)
    let ?c1 = "c1\<lparr>occupied_cells := occupied_cells c1 + 1\<rparr>"
    from new_food_pos_spec [OF "1.prems"(1) nf] obtain x y where
      g: "in_grid x y" and empty: "cell_code ctx (cell_index x y) = SNAKE_CELL_NOTHING" and
      ok1: "cells_ok c1" and fr1: "c1 = ctx\<lparr>cells := cells c1\<rparr>" and
      code1: "\<And>j. j < SNAKE_MATRIX_SIZE \<Longrightarrow> cell_code c1 j =
              (if j = cell_index x y then SNAKE_CELL_FOOD else cell_code ctx j)"
      by blast
    have ok1': "cells_ok ?c1" using ok1 by (simp add: cells_ok_def)
    have cc: "cell_code ?c1 = cell_code c1" by (rule cell_code_cong) simp_all
    from True have i1: "i + 1 \<le> 4" by simp
    from "1.IH" [OF True nf refl ok1' rest i1] cc obtain S where
      ok': "cells_ok ctx'" and
      fr': "ctx' = ?c1\<lparr>cells := cells ctx', occupied_cells := occupied_cells ?c1 + of_int (4 - (i + 1))\<rparr>" and
      sub: "S \<subseteq> {j. j < SNAKE_MATRIX_SIZE \<and> cell_code c1 j = SNAKE_CELL_NOTHING}" and
      card: "card S = nat (4 - (i + 1))" and
      code': "\<And>j. j < SNAKE_MATRIX_SIZE \<Longrightarrow> cell_code ctx' j =
                 (if j \<in> S then SNAKE_CELL_FOOD else cell_code c1 j)"
      by auto
    let ?j0 = "cell_index x y"
    have j0: "?j0 < SNAKE_MATRIX_SIZE" using in_grid_index [OF g] by simp
    have fin: "finite S"
      using sub by (rule finite_subset) simp
    have notin: "?j0 \<notin> S"
      using sub code1 [OF j0] by (auto simp add: SNAKE_CELL_FOOD_def SNAKE_CELL_NOTHING_def)
    have "ctx' = ctx\<lparr>cells := cells ctx', occupied_cells := occupied_cells ctx + of_int (4 - i)\<rparr>"
      by (subst fr', subst (1 2) fr1) simp
    moreover have "insert ?j0 S \<subseteq> {j. j < SNAKE_MATRIX_SIZE \<and> cell_code ctx j = SNAKE_CELL_NOTHING}"
      using sub j0 empty code1 by (auto split: if_splits)
    moreover have "card (insert ?j0 S) = nat (4 - i)"
      using fin notin card True by simp
    moreover have "cell_code ctx' j = (if j \<in> insert ?j0 S then SNAKE_CELL_FOOD else cell_code ctx j)"
      if "j < SNAKE_MATRIX_SIZE" for j
      using that by (simp add: code' code1)
    ultimately show ?thesis using ok' by blast
  qed
qed

lemma card_grid_set:
  assumes "S \<subseteq> {j. j < SNAKE_MATRIX_SIZE}"
  shows "card {p. in_grid (fst p) (snd p) \<and> cell_index (fst p) (snd p) \<in> S} = card S"
proof -
  let ?f = "\<lambda>p :: c_char \<times> c_char. cell_index (fst p) (snd p)"
  let ?A = "{p. in_grid (fst p) (snd p) \<and> ?f p \<in> S}"
  have inj: "inj_on ?f ?A"
  proof (rule inj_onI)
    fix p q
    assume "p \<in> ?A" and "q \<in> ?A" and "?f p = ?f q"
    then have "in_grid (fst p) (snd p)" "in_grid (fst q) (snd q)"
      "cell_index (fst p) (snd p) = cell_index (fst q) (snd q)"
      by simp_all
    then have "fst p = fst q \<and> snd p = snd q" by (rule cell_index_inj)
    then show "p = q" by (simp add: prod_eq_iff)
  qed
  have img: "?f ` ?A = S"
  proof (rule set_eqI)
    fix j
    show "j \<in> ?f ` ?A \<longleftrightarrow> j \<in> S"
    proof
      assume "j \<in> ?f ` ?A"
      then obtain p where "p \<in> ?A" and "j = ?f p" by (rule imageE)
      then show "j \<in> S" by simp
    next
      assume j: "j \<in> S"
      with assms have lt: "j < SNAKE_MATRIX_SIZE" by blast
      let ?p = "(of_nat (j mod SNAKE_GAME_WIDTH), of_nat (j div SNAKE_GAME_WIDTH)) :: c_char \<times> c_char"
      from in_grid_of_index [OF lt] j have "?p \<in> ?A" and "j = ?f ?p" by simp_all
      then show "j \<in> ?f ` ?A" by (rule image_eqI [rotated])
    qed
  qed
  from inj have "card (?f ` ?A) = card ?A" by (rule card_image)
  with img show ?thesis by simp
qed

lemma frame_cells:
  assumes "c' = c\<lparr>cells := cs\<rparr>"
  shows "head_xpos c' = head_xpos c" and "head_ypos c' = head_ypos c"
    and "tail_xpos c' = tail_xpos c" and "tail_ypos c' = tail_ypos c"
    and "next_dir c' = next_dir c" and "inhibit_tail_step c' = inhibit_tail_step c"
    and "occupied_cells c' = occupied_cells c"
  by (simp_all add: assms)

lemma frame_cells_occupied:
  assumes "c' = c\<lparr>cells := cs, occupied_cells := n\<rparr>"
  shows "head_xpos c' = head_xpos c" and "head_ypos c' = head_ypos c"
    and "tail_xpos c' = tail_xpos c" and "tail_ypos c' = tail_ypos c"
    and "next_dir c' = next_dir c" and "inhibit_tail_step c' = inhibit_tail_step c"
    and "occupied_cells c' = n"
  by (simp_all add: assms)

lemma centre: "in_grid 12 9" "cell_index 12 9 = 228"
  by (simp_all add: in_grid_def cell_index_def grid_consts)

lemma snake_initialize_spec:
  assumes "snake_initialize ctx rs = Inr (ctx', rs')"
  shows "cells_ok ctx' \<and> head_xpos ctx' = 12 \<and> head_ypos ctx' = 9 \<and>
         tail_xpos ctx' = 12 \<and> tail_ypos ctx' = 9 \<and> next_dir ctx' = SNAKE_DIR_RIGHT \<and>
         inhibit_tail_step ctx' = 4 \<and> occupied_cells ctx' = 7 \<and>
         (\<exists>S. S \<subseteq> {j. j < SNAKE_MATRIX_SIZE} \<and> 228 \<notin> S \<and> card S = 4 \<and>
            (\<forall>j<SNAKE_MATRIX_SIZE. cell_code ctx' j =
               (if j \<in> S then SNAKE_CELL_FOOD
                else if j = 228 then SNAKE_CELL_SRIGHT else SNAKE_CELL_NOTHING)))"
proof -
  define c6 where "c6 = ctx\<lparr>cells := replicate CELLS_SIZE 0, tail_xpos := 12, head_xpos := 12,
    tail_ypos := 9, head_ypos := 9, next_dir := SNAKE_DIR_RIGHT, inhibit_tail_step := 4,
    occupied_cells := 3\<rparr>"
  have ok6: "cells_ok c6" by (simp add: c6_def cells_ok_def)
  have zero: "cell_code c6 j = 0" if "j < SNAKE_MATRIX_SIZE" for j
    using that by (rule cell_code_zero [rotated]) (simp add: c6_def)
  from assms have init: "(case put_cell_at c6 12 9 SNAKE_CELL_SRIGHT of
      Inl e \<Rightarrow> Inl e | Inr ctx7 \<Rightarrow> initial_food 0 ctx7 rs) = Inr (ctx', rs')"
    by (simp add: snake_initialize_def c6_def grid_consts)
  from put_cell_at_code [OF centre(1) ok6, of SNAKE_CELL_SRIGHT, unfolded centre(2)] obtain c7 where
    put: "put_cell_at c6 12 9 SNAKE_CELL_SRIGHT = Inr c7" and ok7: "cells_ok c7" and
    fr7: "c7 = c6\<lparr>cells := cells c7\<rparr>" and
    code7: "\<And>j. j < SNAKE_MATRIX_SIZE \<Longrightarrow> cell_code c7 j =
              (if j = 228 then SNAKE_CELL_SRIGHT AND THREE_BITS else cell_code c6 j)"
    by blast
  have sr: "SNAKE_CELL_SRIGHT AND THREE_BITS = SNAKE_CELL_SRIGHT"
    by (simp add: SNAKE_CELL_SRIGHT_def cell_code_le)
  from init put have food: "initial_food 0 c7 rs = Inr (ctx', rs')" by simp
  have le: "(0::int) \<le> 4" by simp
  from initial_food_spec [OF ok7 food le] obtain S where
    ok': "cells_ok ctx'" and
    fr': "ctx' = c7\<lparr>cells := cells ctx', occupied_cells := occupied_cells c7 + of_int (4 - 0)\<rparr>" and
    sub: "S \<subseteq> {j. j < SNAKE_MATRIX_SIZE \<and> cell_code c7 j = SNAKE_CELL_NOTHING}" and
    card0: "card S = nat (4 - 0)" and
    code': "\<And>j. j < SNAKE_MATRIX_SIZE \<Longrightarrow> cell_code ctx' j =
                 (if j \<in> S then SNAKE_CELL_FOOD else cell_code c7 j)"
    by blast
  from card0 have card: "card S = 4" by simp
  have f7: "head_xpos c7 = 12 \<and> head_ypos c7 = 9 \<and> tail_xpos c7 = 12 \<and> tail_ypos c7 = 9 \<and>
      next_dir c7 = SNAKE_DIR_RIGHT \<and> inhibit_tail_step c7 = 4 \<and> occupied_cells c7 = 3"
    using frame_cells [OF fr7] by (simp add: c6_def)
  have fields: "head_xpos ctx' = 12 \<and> head_ypos ctx' = 9 \<and> tail_xpos ctx' = 12 \<and>
      tail_ypos ctx' = 9 \<and> next_dir ctx' = SNAKE_DIR_RIGHT \<and> inhibit_tail_step ctx' = 4 \<and>
      occupied_cells ctx' = 7"
    using frame_cells_occupied [OF fr'] f7 by simp
  have "cell_code c7 228 = SNAKE_CELL_SRIGHT"
    using code7 [of 228] by (simp add: sr grid_consts)
  with sub have "228 \<notin> S"
    by (auto simp add: SNAKE_CELL_SRIGHT_def SNAKE_CELL_NOTHING_def)
  moreover have "S \<subseteq> {j. j < SNAKE_MATRIX_SIZE}" using sub by auto
  moreover have "cell_code ctx' j =
      (if j \<in> S then SNAKE_CELL_FOOD else if j = 228 then SNAKE_CELL_SRIGHT else SNAKE_CELL_NOTHING)"
    if "j < SNAKE_MATRIX_SIZE" for j
    using that by (simp add: code' code7 sr zero SNAKE_CELL_NOTHING_def)
  ultimately show ?thesis using ok' fields card by blast
qed

lemma new_food_pos_hit:
  assumes "cells_ok ctx"
    and "cell_code ctx (cell_index (of_nat (rx mod SNAKE_GAME_WIDTH)) (of_nat (ry mod SNAKE_GAME_HEIGHT)))
          = SNAKE_CELL_NOTHING"
  shows "\<exists>c. \<forall>rs. new_food_pos ctx (rx # ry # rs) = Inr (c, rs)"
proof -
  let ?x = "of_nat (rx mod SNAKE_GAME_WIDTH) :: c_char"
  let ?y = "of_nat (ry mod SNAKE_GAME_HEIGHT) :: c_char"
  have g: "in_grid ?x ?y" by (rule in_grid_draw)
  from put_cell_at_code [OF g assms(1), of SNAKE_CELL_FOOD] obtain c where
    "put_cell_at ctx ?x ?y SNAKE_CELL_FOOD = Inr c" by blast
  with assms(2) show ?thesis
    by (simp add: snake_cell_at_code [OF g] Let_def)
qed

lemma new_food_pos_miss:
  assumes "cell_code ctx (cell_index (of_nat (rx mod SNAKE_GAME_WIDTH)) (of_nat (ry mod SNAKE_GAME_HEIGHT)))
          \<noteq> SNAKE_CELL_NOTHING"
  shows "new_food_pos ctx (rx # ry # rs) = new_food_pos ctx rs"
  using assms by (simp add: snake_cell_at_code [OF in_grid_draw] Let_def)

declare new_food_pos.simps [simp del]

lemma new_food_pos_append:
  assumes "cells_ok ctx" and "new_food_pos ctx rs = Inr (c, r)"
  shows "new_food_pos ctx (rs @ e) = Inr (c, r @ e)"
  using assms(2)
proof (induction rs rule: induct_list012)
  case 1
  then show ?case by (simp add: new_food_pos.simps)
next
  case (2 x)
  then show ?case by (simp add: new_food_pos.simps)
next
  case (3 rx ry rs)
  show ?case
  proof (cases "cell_code ctx (cell_index (of_nat (rx mod SNAKE_GAME_WIDTH)) (of_nat (ry mod SNAKE_GAME_HEIGHT)))
          = SNAKE_CELL_NOTHING")
    case True
    from new_food_pos_hit [OF assms(1) True]
    obtain c1 where h: "\<And>rs. new_food_pos ctx (rx # ry # rs) = Inr (c1, rs)" by blast
    from h [of rs] 3(3) have "c1 = c" "rs = r" by simp_all
    with h [of "rs @ e"] show ?thesis by simp
  next
    case False
    from 3(3) have "new_food_pos ctx rs = Inr (c, r)"
      by (simp only: new_food_pos_miss [OF False])
    then have "new_food_pos ctx (rs @ e) = Inr (c, r @ e)" by (rule 3(1))
    then show ?thesis
      using new_food_pos_miss [OF False, of "rs @ e"] by simp
  qed
qed

lemma new_food_pos_extend:
  assumes ok: "cells_ok ctx" and j: "j < SNAKE_MATRIX_SIZE"
    and e: "cell_code ctx j = SNAKE_CELL_NOTHING"
  shows "\<exists>ext c r. new_food_pos ctx (rs @ ext) = Inr (c, r)"
proof -
  let ?jx = "j mod SNAKE_GAME_WIDTH"
  let ?jy = "j div SNAKE_GAME_WIDTH"
  from j have "?jx mod SNAKE_GAME_WIDTH = ?jx" "?jy mod SNAKE_GAME_HEIGHT = ?jy"
    by (simp_all add: grid_consts)
  with e in_grid_of_index(2) [OF j]
  have "cell_code ctx (cell_index (of_nat (?jx mod SNAKE_GAME_WIDTH)) (of_nat (?jy mod SNAKE_GAME_HEIGHT)))
          = SNAKE_CELL_NOTHING"
    by simp
  from new_food_pos_hit [OF ok this] obtain c0 where
    hit: "new_food_pos ctx [?jx, ?jy] = Inr (c0, [])"
    by blast
  show ?thesis
  proof (induction rs rule: induct_list012)
    case 1
    from hit show ?case by (intro exI [of _ "[?jx, ?jy]"]) simp
  next
    case (2 x)
    show ?case
    proof (cases "cell_code ctx (cell_index (of_nat (x mod SNAKE_GAME_WIDTH)) (of_nat (0 mod SNAKE_GAME_HEIGHT)))
          = SNAKE_CELL_NOTHING")
      case True
      from new_food_pos_hit [OF ok True] obtain c1 where
        "new_food_pos ctx (x # 0 # [?jx, ?jy]) = Inr (c1, [?jx, ?jy])" by blast
      then show ?thesis
        by (intro exI [of _ "[0, ?jx, ?jy]"]) simp
    next
      case False
      from new_food_pos_miss [OF False, of "[?jx, ?jy]"] hit show ?thesis
        by (intro exI [of _ "[0, ?jx, ?jy]"]) simp
    qed
  next
    case (3 rx ry rs)
    show ?case
    proof (cases "cell_code ctx (cell_index (of_nat (rx mod SNAKE_GAME_WIDTH)) (of_nat (ry mod SNAKE_GAME_HEIGHT)))
          = SNAKE_CELL_NOTHING")
      case True
      from new_food_pos_hit [OF ok True] obtain c1 where
        "new_food_pos ctx (rx # ry # rs) = Inr (c1, rs)" by blast
      then show ?thesis
        by (intro exI [of _ "[]"]) simp
    next
      case False
      from 3(1) obtain ext c r where "new_food_pos ctx (rs @ ext) = Inr (c, r)" by blast
      with new_food_pos_miss [OF False, of "rs @ ext"] show ?thesis
        by (intro exI [of _ ext]) simp
    qed
  qed
qed


lemma empty_cell_exists:
  assumes "card {j. j < SNAKE_MATRIX_SIZE \<and> cell_code ctx j \<noteq> SNAKE_CELL_NOTHING} < SNAKE_MATRIX_SIZE"
  shows "\<exists>j<SNAKE_MATRIX_SIZE. cell_code ctx j = SNAKE_CELL_NOTHING"
proof (rule ccontr)
  assume "\<not> ?thesis"
  then have "{j. j < SNAKE_MATRIX_SIZE \<and> cell_code ctx j \<noteq> SNAKE_CELL_NOTHING} = {..<SNAKE_MATRIX_SIZE}"
    by auto
  with assms show False by simp
qed

lemma initial_food_extend:
  assumes "cells_ok ctx"
    and "card {j. j < SNAKE_MATRIX_SIZE \<and> cell_code ctx j \<noteq> SNAKE_CELL_NOTHING} + nat (4 - i)
          \<le> SNAKE_MATRIX_SIZE"
  shows "\<exists>ext c r. initial_food i ctx (rs @ ext) = Inr (c, r)"
  using assms
proof (induction "nat (4 - i)" arbitrary: i ctx rs)
  case 0
  then have "\<not> i < 4" by simp
  then have "initial_food i ctx (rs @ []) = Inr (ctx, rs)"
    by (simp add: initial_food.simps [of i])
  then show ?case by blast
next
  case (Suc n)
  let ?N = "\<lambda>c. {j. j < SNAKE_MATRIX_SIZE \<and> cell_code c j \<noteq> SNAKE_CELL_NOTHING}"
  from Suc(2) have i: "i < 4" and n: "n = nat (4 - (i + 1))" by simp_all
  from Suc(2,4) have "card (?N ctx) < SNAKE_MATRIX_SIZE" by simp
  from empty_cell_exists [OF this] obtain j where
    j: "j < SNAKE_MATRIX_SIZE" and e: "cell_code ctx j = SNAKE_CELL_NOTHING" by blast
  from new_food_pos_extend [OF Suc(3) j e, of rs] obtain ext1 c1 r1 where
    nf: "new_food_pos ctx (rs @ ext1) = Inr (c1, r1)" by blast
  from new_food_pos_spec [OF Suc(3) nf] obtain x y where
    ok1: "cells_ok c1" and
    code1: "\<And>j. j < SNAKE_MATRIX_SIZE \<Longrightarrow> cell_code c1 j =
              (if j = cell_index x y then SNAKE_CELL_FOOD else cell_code ctx j)"
    by blast
  let ?c1 = "c1\<lparr>occupied_cells := occupied_cells c1 + 1\<rparr>"
  have ok1': "cells_ok ?c1" using ok1 by (simp add: cells_ok_def)
  have cc: "cell_code ?c1 = cell_code c1" by (rule cell_code_cong) simp_all
  have sub: "?N c1 \<subseteq> insert (cell_index x y) (?N ctx)"
    using code1 by (auto split: if_splits)
  have fin: "finite (?N ctx)" by simp
  have "card (?N c1) \<le> card (insert (cell_index x y) (?N ctx))"
    using sub fin by (intro card_mono) simp_all
  also have "\<dots> \<le> Suc (card (?N ctx))"
    using fin by (simp add: card_insert_if)
  finally have "card (?N c1) \<le> Suc (card (?N ctx))" .
  with Suc(2,4) have "card (?N ?c1) + nat (4 - (i + 1)) \<le> SNAKE_MATRIX_SIZE"
    unfolding cc by simp
  from Suc(1) [OF n ok1' this, of r1] obtain ext2 c r where
    rest: "initial_food (i + 1) ?c1 (r1 @ ext2) = Inr (c, r)" by blast
  from new_food_pos_append [OF Suc(3) nf, of ext2]
  have "new_food_pos ctx (rs @ (ext1 @ ext2)) = Inr (c1, r1 @ ext2)" by simp
  with i rest have "initial_food i ctx (rs @ (ext1 @ ext2)) = Inr (c, r)"
    by (simp add: initial_food.simps [of i])
  then show ?case by blast
qed

lemma snake_initialize_returns:
  "\<exists>ext c r. snake_initialize ctx (rs @ ext) = Inr (c, r)"
proof -
  define c6 where "c6 = ctx\<lparr>cells := replicate CELLS_SIZE 0, tail_xpos := 12, head_xpos := 12,
    tail_ypos := 9, head_ypos := 9, next_dir := SNAKE_DIR_RIGHT, inhibit_tail_step := 4,
    occupied_cells := 3\<rparr>"
  have ok6: "cells_ok c6" by (simp add: c6_def cells_ok_def)
  have zero: "cell_code c6 j = 0" if "j < SNAKE_MATRIX_SIZE" for j
    using that by (rule cell_code_zero [rotated]) (simp add: c6_def)
  have init: "snake_initialize ctx rs' = (case put_cell_at c6 12 9 SNAKE_CELL_SRIGHT of
      Inl e \<Rightarrow> Inl e | Inr ctx7 \<Rightarrow> initial_food 0 ctx7 rs')" for rs'
    by (simp add: snake_initialize_def c6_def grid_consts)
  from put_cell_at_code [OF centre(1) ok6, of SNAKE_CELL_SRIGHT, unfolded centre(2)] obtain c7 where
    put: "put_cell_at c6 12 9 SNAKE_CELL_SRIGHT = Inr c7" and ok7: "cells_ok c7" and
    code7: "\<And>j. j < SNAKE_MATRIX_SIZE \<Longrightarrow> cell_code c7 j =
              (if j = 228 then SNAKE_CELL_SRIGHT AND THREE_BITS else cell_code c6 j)"
    by blast
  have "{j. j < SNAKE_MATRIX_SIZE \<and> cell_code c7 j \<noteq> SNAKE_CELL_NOTHING} \<subseteq> {228}"
    using code7 zero by (auto simp add: SNAKE_CELL_NOTHING_def split: if_splits)
  then have "card {j. j < SNAKE_MATRIX_SIZE \<and> cell_code c7 j \<noteq> SNAKE_CELL_NOTHING} \<le> card {228 :: nat}"
    by (intro card_mono) simp_all
  then have "card {j. j < SNAKE_MATRIX_SIZE \<and> cell_code c7 j \<noteq> SNAKE_CELL_NOTHING} \<le> 1"
    by simp
  then have "card {j. j < SNAKE_MATRIX_SIZE \<and> cell_code c7 j \<noteq> SNAKE_CELL_NOTHING} + nat (4 - 0)
      \<le> SNAKE_MATRIX_SIZE"
    by (simp add: grid_consts)
  from initial_food_extend [OF ok7 this, of rs] put show ?thesis
    by (simp add: init)
qed

text \<open>
  Claim C1: whenever \<^verbatim>\<open>snake_initialize\<close> returns, head and tail are at \<open>(12, 9)\<close>, the cell
  there is \<^verbatim>\<open>SNAKE_CELL_SRIGHT\<close>, the pending direction is right, the growth-inhibit counter
  is 4, the occupied-cell count is 7, exactly four cells hold food and every other cell
  but \<open>(12, 9)\<close> is empty. It returns as soon as the draws have hit four empty cells: every
  list of draws has an extension on which it returns.
\<close>

theorem snake_initialize_state:
  "(\<forall>ctx' rs'. snake_initialize ctx rs = Inr (ctx', rs') \<longrightarrow>
      head_xpos ctx' = 12 \<and> head_ypos ctx' = 9 \<and> tail_xpos ctx' = 12 \<and> tail_ypos ctx' = 9 \<and>
      snake_cell_at ctx' 12 9 = Inr SNAKE_CELL_SRIGHT \<and> next_dir ctx' = SNAKE_DIR_RIGHT \<and>
      inhibit_tail_step ctx' = 4 \<and> occupied_cells ctx' = 7 \<and>
      card {(x, y). in_grid x y \<and> snake_cell_at ctx' x y = Inr SNAKE_CELL_FOOD} = 4 \<and>
      (\<forall>x y. in_grid x y \<and> (x, y) \<noteq> (12, 9) \<and> snake_cell_at ctx' x y \<noteq> Inr SNAKE_CELL_FOOD \<longrightarrow>
         snake_cell_at ctx' x y = Inr SNAKE_CELL_NOTHING)) \<and>
   (\<exists>ext ctx' rs'. snake_initialize ctx (rs @ ext) = Inr (ctx', rs'))"
proof (intro conjI allI impI)
  show "\<exists>ext ctx' rs'. snake_initialize ctx (rs @ ext) = Inr (ctx', rs')"
    by (rule snake_initialize_returns)
next
  fix ctx' rs'
  assume init: "snake_initialize ctx rs = Inr (ctx', rs')"
  from snake_initialize_spec [OF init] obtain S where
    fields: "head_xpos ctx' = 12" "head_ypos ctx' = 9" "tail_xpos ctx' = 12" "tail_ypos ctx' = 9"
      "next_dir ctx' = SNAKE_DIR_RIGHT" "inhibit_tail_step ctx' = 4" "occupied_cells ctx' = 7" and
    sub: "S \<subseteq> {j. j < SNAKE_MATRIX_SIZE}" and centre_free: "228 \<notin> S" and card: "card S = 4" and
    code: "\<And>j. j < SNAKE_MATRIX_SIZE \<Longrightarrow> cell_code ctx' j =
               (if j \<in> S then SNAKE_CELL_FOOD
                else if j = 228 then SNAKE_CELL_SRIGHT else SNAKE_CELL_NOTHING)"
    by blast
  have cell: "snake_cell_at ctx' x y = Inr (if cell_index x y \<in> S then SNAKE_CELL_FOOD
      else if cell_index x y = 228 then SNAKE_CELL_SRIGHT else SNAKE_CELL_NOTHING)"
    if "in_grid x y" for x y
    using that by (simp add: snake_cell_at_code code in_grid_index)
  show "head_xpos ctx' = 12" "head_ypos ctx' = 9" "tail_xpos ctx' = 12" "tail_ypos ctx' = 9"
    "next_dir ctx' = SNAKE_DIR_RIGHT" "inhibit_tail_step ctx' = 4" "occupied_cells ctx' = 7"
    by (fact fields)+
  show "snake_cell_at ctx' 12 9 = Inr SNAKE_CELL_SRIGHT"
    using centre_free by (simp add: cell centre)
  have "{(x, y). in_grid x y \<and> snake_cell_at ctx' x y = Inr SNAKE_CELL_FOOD}
      = {p. in_grid (fst p) (snd p) \<and> cell_index (fst p) (snd p) \<in> S}"
    by (auto simp add: cell SNAKE_CELL_FOOD_def SNAKE_CELL_SRIGHT_def SNAKE_CELL_NOTHING_def
        split: if_splits)
  with card_grid_set [OF sub] card
  show "card {(x, y). in_grid x y \<and> snake_cell_at ctx' x y = Inr SNAKE_CELL_FOOD} = 4"
    by simp
  fix x y
  assume a: "in_grid x y \<and> (x, y) \<noteq> (12, 9) \<and> snake_cell_at ctx' x y \<noteq> Inr SNAKE_CELL_FOOD"
  then have "cell_index x y \<noteq> 228"
    using cell_index_inj [of x y 12 9] centre by auto
  with a show "snake_cell_at ctx' x y = Inr SNAKE_CELL_NOTHING"
    by (auto simp add: cell split: if_splits)
qed

theorem snake_initialize_state_witness:
  "\<exists>ctx'. snake_initialize blank_context [0, 0, 1, 0, 23, 17, 22, 17] = Inr (ctx', []) \<and>
     head_xpos ctx' = 12 \<and> head_ypos ctx' = 9 \<and> tail_xpos ctx' = 12 \<and> tail_ypos ctx' = 9 \<and>
     snake_cell_at ctx' 12 9 = Inr SNAKE_CELL_SRIGHT \<and> next_dir ctx' = SNAKE_DIR_RIGHT \<and>
     inhibit_tail_step ctx' = 4 \<and> occupied_cells ctx' = 7 \<and>
     card {(x, y). in_grid x y \<and> snake_cell_at ctx' x y = Inr SNAKE_CELL_FOOD} = 4"
proof -
  have "case snake_initialize blank_context [0, 0, 1, 0, 23, 17, 22, 17] of
      Inl e \<Rightarrow> False | Inr (c, r) \<Rightarrow> r = []"
    by code_simp
  then obtain c where "snake_initialize blank_context [0, 0, 1, 0, 23, 17, 22, 17] = Inr (c, [])"
    by (auto split: sum.splits)
  with snake_initialize_state [of blank_context "[0, 0, 1, 0, 23, 17, 22, 17]"] show ?thesis
    by blast
qed

subsection \<open>The three blocks of a step\<close>

lemmas cell_names = SNAKE_CELL_NOTHING_def SNAKE_CELL_SRIGHT_def SNAKE_CELL_SUP_def
  SNAKE_CELL_SLEFT_def SNAKE_CELL_SDOWN_def SNAKE_CELL_FOOD_def

lemma move_x:
  assumes "0 \<le> sint v" and "sint v < 24"
  shows "sint (wrap_around (v + 1) (of_nat SNAKE_GAME_WIDTH)) = (sint v + 1) mod 24"
    and "sint (wrap_around (v - 1) (of_nat SNAKE_GAME_WIDTH)) = (sint v - 1) mod 24"
    and "wrap_around v (of_nat SNAKE_GAME_WIDTH) = v"
  using assms wrap_around_inc [of v "of_nat SNAKE_GAME_WIDTH"]
    wrap_around_dec [of v "of_nat SNAKE_GAME_WIDTH"] wrap_around_same [of v "of_nat SNAKE_GAME_WIDTH"]
  by (simp_all add: sint_width)

lemma move_y:
  assumes "0 \<le> sint v" and "sint v < 18"
  shows "sint (wrap_around (v + 1) (of_nat SNAKE_GAME_HEIGHT)) = (sint v + 1) mod 18"
    and "sint (wrap_around (v - 1) (of_nat SNAKE_GAME_HEIGHT)) = (sint v - 1) mod 18"
    and "wrap_around v (of_nat SNAKE_GAME_HEIGHT) = v"
  using assms wrap_around_inc [of v "of_nat SNAKE_GAME_HEIGHT"]
    wrap_around_dec [of v "of_nat SNAKE_GAME_HEIGHT"] wrap_around_same [of v "of_nat SNAKE_GAME_HEIGHT"]
  by (simp_all add: sint_height)

lemma in_grid_alt:
  "in_grid x y \<longleftrightarrow> 0 \<le> sint x \<and> sint x < 24 \<and> 0 \<le> sint y \<and> sint y < 18"
  by (simp add: in_grid_def grid_consts)

lemma step_tail_hold:
  assumes "inhibit_tail_step ctx - 1 \<noteq> 0"
  shows "step_tail ctx = Inr (ctx\<lparr>inhibit_tail_step := inhibit_tail_step ctx - 1\<rparr>)"
  using assms by (simp add: step_tail_def)

lemma step_tail_advance:
  assumes z: "inhibit_tail_step ctx - 1 = 0" and ok: "cells_ok ctx"
    and g: "in_grid (tail_xpos ctx) (tail_ypos ctx)"
  shows "\<exists>c. step_tail ctx = Inr c \<and> cells_ok c \<and>
     head_xpos c = head_xpos ctx \<and> head_ypos c = head_ypos ctx \<and> next_dir c = next_dir ctx \<and>
     occupied_cells c = occupied_cells ctx \<and> inhibit_tail_step c = 1 \<and>
     sint (tail_xpos c) =
       (sint (tail_xpos ctx) + cell_dx (cell_code ctx (cell_index (tail_xpos ctx) (tail_ypos ctx)))) mod 24 \<and>
     sint (tail_ypos c) =
       (sint (tail_ypos ctx) + cell_dy (cell_code ctx (cell_index (tail_xpos ctx) (tail_ypos ctx)))) mod 18 \<and>
     (\<forall>j<SNAKE_MATRIX_SIZE. cell_code c j =
        (if j = cell_index (tail_xpos ctx) (tail_ypos ctx) then SNAKE_CELL_NOTHING else cell_code ctx j))"
proof -
  let ?tx = "tail_xpos ctx" and ?ty = "tail_ypos ctx"
  let ?c2 = "ctx\<lparr>inhibit_tail_step := 1\<rparr>"
  let ?ct = "cell_code ctx (cell_index ?tx ?ty)"
  have ok2: "cells_ok ?c2" using ok by (simp add: cells_ok_def)
  have cc2: "cell_code ?c2 = cell_code ctx" by (rule cell_code_cong) simp_all
  from put_cell_at_code [OF g ok2, of SNAKE_CELL_NOTHING] obtain c3 where
    put: "put_cell_at ?c2 ?tx ?ty SNAKE_CELL_NOTHING = Inr c3" and ok3: "cells_ok c3" and
    fr3: "c3 = ?c2\<lparr>cells := cells c3\<rparr>" and
    code3: "\<forall>j<SNAKE_MATRIX_SIZE. cell_code c3 j =
              (if j = cell_index ?tx ?ty then SNAKE_CELL_NOTHING AND THREE_BITS else cell_code ?c2 j)"
    by blast
  have n0: "SNAKE_CELL_NOTHING AND THREE_BITS = SNAKE_CELL_NOTHING"
    by (simp add: SNAKE_CELL_NOTHING_def)
  note f3 = frame_cells [OF fr3]
  from g have r: "0 \<le> sint ?tx" "sint ?tx < 24" "0 \<le> sint ?ty" "sint ?ty < 18"
    by (simp_all add: in_grid_alt)
  define c where "c = (let ctx4 =
                      (if ?ct = SNAKE_CELL_SRIGHT then c3\<lparr>tail_xpos := tail_xpos c3 + 1\<rparr>
                       else if ?ct = SNAKE_CELL_SUP then c3\<lparr>tail_ypos := tail_ypos c3 - 1\<rparr>
                       else if ?ct = SNAKE_CELL_SLEFT then c3\<lparr>tail_xpos := tail_xpos c3 - 1\<rparr>
                       else if ?ct = SNAKE_CELL_SDOWN then c3\<lparr>tail_ypos := tail_ypos c3 + 1\<rparr>
                       else c3);
                     ctx5 = ctx4\<lparr>tail_xpos := wrap_around (tail_xpos ctx4) (of_nat SNAKE_GAME_WIDTH)\<rparr>;
                     ctx6 = ctx5\<lparr>tail_ypos := wrap_around (tail_ypos ctx5) (of_nat SNAKE_GAME_HEIGHT)\<rparr>
                 in ctx6)"
  have st: "step_tail ctx = Inr c"
    using z put by (simp add: step_tail_def snake_cell_at_code [OF g] cc2 c_def Let_def)
  have cells: "cells c = cells c3" and oth: "head_xpos c = head_xpos c3" "head_ypos c = head_ypos c3"
    "next_dir c = next_dir c3" "occupied_cells c = occupied_cells c3"
    "inhibit_tail_step c = inhibit_tail_step c3"
    by (simp_all add: c_def Let_def)
  have okc: "cells_ok c" using ok3 cells by (simp add: cells_ok_def)
  have ccc: "cell_code c = cell_code c3"
    by (rule cell_code_cong) (simp_all add: cells oth)
  have tx: "sint (tail_xpos c) = (sint ?tx + cell_dx ?ct) mod 24"
    using r move_x [of ?tx]
    by (simp add: c_def Let_def f3 cell_dx_def cell_names)
  have ty: "sint (tail_ypos c) = (sint ?ty + cell_dy ?ct) mod 18"
    using r move_y [of ?ty]
    by (simp add: c_def Let_def f3 cell_dy_def cell_names)
  from st okc oth f3 tx ty code3 show ?thesis
    by (simp add: ccc cc2 n0)
qed

lemma snake_initialize_any: "snake_initialize c rs = snake_initialize c' rs"
  by (cases c, cases c') (simp add: snake_initialize_def)

lemma dir_cell_le: "dir_value d + 1 \<le> SNAKE_CELL_FOOD"
  by (cases d) (simp_all add: SNAKE_CELL_FOOD_def)

lemma step_head_frame:
  "cells (step_head ctx) = cells ctx" "tail_xpos (step_head ctx) = tail_xpos ctx"
  "tail_ypos (step_head ctx) = tail_ypos ctx" "next_dir (step_head ctx) = next_dir ctx"
  "inhibit_tail_step (step_head ctx) = inhibit_tail_step ctx"
  "occupied_cells (step_head ctx) = occupied_cells ctx"
  by (cases "next_dir ctx"; simp add: step_head_def Let_def)+

lemma step_head_move:
  assumes "in_grid (head_xpos ctx) (head_ypos ctx)"
  shows "sint (head_xpos (step_head ctx)) =
           (sint (head_xpos ctx) + cell_dx (dir_value (next_dir ctx) + 1)) mod 24"
    and "sint (head_ypos (step_head ctx)) =
           (sint (head_ypos ctx) + cell_dy (dir_value (next_dir ctx) + 1)) mod 18"
proof -
  from assms have r: "0 \<le> sint (head_xpos ctx)" "sint (head_xpos ctx) < 24"
    "0 \<le> sint (head_ypos ctx)" "sint (head_ypos ctx) < 18"
    by (simp_all add: in_grid_alt)
  show "sint (head_xpos (step_head ctx)) =
           (sint (head_xpos ctx) + cell_dx (dir_value (next_dir ctx) + 1)) mod 24"
    using r move_x [of "head_xpos ctx"]
    by (cases "next_dir ctx") (simp_all add: step_head_def Let_def cell_dx_def cell_names)
  show "sint (head_ypos (step_head ctx)) =
           (sint (head_ypos ctx) + cell_dy (dir_value (next_dir ctx) + 1)) mod 18"
    using r move_y [of "head_ypos ctx"]
    by (cases "next_dir ctx") (simp_all add: step_head_def Let_def cell_dy_def cell_names)
qed

lemma step_head_in_grid:
  assumes "in_grid (head_xpos ctx) (head_ypos ctx)"
  shows "in_grid (head_xpos (step_head ctx)) (head_ypos (step_head ctx))"
  unfolding in_grid_alt step_head_move [OF assms] by simp

lemma step_collide_spec:
  assumes ok: "cells_ok ctx" and gh: "in_grid (head_xpos ctx) (head_ypos ctx)"
    and gp: "in_grid px py" and dc: "dc \<le> SNAKE_CELL_FOOD"
  shows "\<exists>c4. cells_ok c4 \<and> c4 = ctx\<lparr>cells := cells c4\<rparr> \<and>
      (case put_cell_at ctx px py dc of
         Inl e \<Rightarrow> Inl e
       | Inr c3 \<Rightarrow> put_cell_at c3 (head_xpos c3) (head_ypos c3) dc) = Inr c4 \<and>
      (\<forall>j<SNAKE_MATRIX_SIZE. cell_code c4 j =
         (if j = cell_index (head_xpos ctx) (head_ypos ctx) \<or> j = cell_index px py then dc
          else cell_code ctx j)) \<and>
      step_collide dc px py ctx rs =
        (if cell_code ctx (cell_index (head_xpos ctx) (head_ypos ctx)) \<noteq> SNAKE_CELL_NOTHING \<and>
            cell_code ctx (cell_index (head_xpos ctx) (head_ypos ctx)) \<noteq> SNAKE_CELL_FOOD
         then snake_initialize ctx rs
         else if cell_code ctx (cell_index (head_xpos ctx) (head_ypos ctx)) = SNAKE_CELL_FOOD then
           (if are_cells_full ctx then snake_initialize c4 rs
            else case new_food_pos c4 rs of
                   Inl e \<Rightarrow> Inl e
                 | Inr (c5, rs') \<Rightarrow>
                     Inr ((c5\<lparr>inhibit_tail_step := inhibit_tail_step c5 + 1,
                              occupied_cells := occupied_cells c5 + 1\<rparr>), rs'))
         else Inr (c4, rs))"
proof -
  let ?hx = "head_xpos ctx" and ?hy = "head_ypos ctx"
  from dc have dc7: "dc AND THREE_BITS = dc"
    by (simp add: cell_code_le SNAKE_CELL_FOOD_def)
  from put_cell_at_code [OF gp ok, of dc] obtain c3 where
    put3: "put_cell_at ctx px py dc = Inr c3" and ok3: "cells_ok c3" and
    fr3: "c3 = ctx\<lparr>cells := cells c3\<rparr>" and
    code3: "\<And>j. j < SNAKE_MATRIX_SIZE \<Longrightarrow> cell_code c3 j =
              (if j = cell_index px py then dc AND THREE_BITS else cell_code ctx j)"
    by blast
  note f3 = frame_cells [OF fr3]
  from gh have gh3: "in_grid (head_xpos c3) (head_ypos c3)" by (simp add: f3)
  from put_cell_at_code [OF gh3 ok3, of dc] obtain c4 where
    put4: "put_cell_at c3 (head_xpos c3) (head_ypos c3) dc = Inr c4" and ok4: "cells_ok c4" and
    fr4: "c4 = c3\<lparr>cells := cells c4\<rparr>" and
    code4: "\<And>j. j < SNAKE_MATRIX_SIZE \<Longrightarrow> cell_code c4 j =
              (if j = cell_index (head_xpos c3) (head_ypos c3) then dc AND THREE_BITS else cell_code c3 j)"
    by blast
  note f4 = frame_cells [OF fr4]
  have fr: "c4 = ctx\<lparr>cells := cells c4\<rparr>"
    by (rule SnakeContext.equality) (simp_all add: f4 f3)
  have full: "are_cells_full c4 = are_cells_full ctx"
    by (simp add: are_cells_full_def f4 f3)
  have code: "cell_code c4 j = (if j = cell_index ?hx ?hy \<or> j = cell_index px py then dc
          else cell_code ctx j)" if "j < SNAKE_MATRIX_SIZE" for j
    using that by (simp add: code4 code3 dc7 f3)
  have "step_collide dc px py ctx rs =
        (if cell_code ctx (cell_index ?hx ?hy) \<noteq> SNAKE_CELL_NOTHING \<and>
            cell_code ctx (cell_index ?hx ?hy) \<noteq> SNAKE_CELL_FOOD
         then snake_initialize ctx rs
         else if cell_code ctx (cell_index ?hx ?hy) = SNAKE_CELL_FOOD then
           (if are_cells_full ctx then snake_initialize c4 rs
            else case new_food_pos c4 rs of
                   Inl e \<Rightarrow> Inl e
                 | Inr (c5, rs') \<Rightarrow>
                     Inr ((c5\<lparr>inhibit_tail_step := inhibit_tail_step c5 + 1,
                              occupied_cells := occupied_cells c5 + 1\<rparr>), rs'))
         else Inr (c4, rs))"
    using put3 put4
    by (simp add: step_collide_def snake_cell_at_code [OF gh] full cell_names)
  moreover have "(case put_cell_at ctx px py dc of
         Inl e \<Rightarrow> Inl e
       | Inr c3 \<Rightarrow> put_cell_at c3 (head_xpos c3) (head_ypos c3) dc) = Inr c4"
    using put3 put4 by simp
  ultimately show ?thesis using ok4 fr code by blast
qed

lemma cell_code_cells:
  assumes "cells c = cells c'" and "j < SNAKE_MATRIX_SIZE"
  shows "cell_code c j = cell_code c' j"
proof (rule bit_word_eqI)
  fix m
  assume "m < LENGTH(32)"
  show "bit (cell_code c j) m = bit (cell_code c' j) m"
  proof (cases "m < 3")
    case True
    with assms(2) have "(3 * j + m) div 8 < CELLS_SIZE"
      by (simp add: cells_size grid_consts)
    with assms(1) show ?thesis
      by (simp add: bit_cell_code obj_bit_def obj_byte_def)
  next
    case False
    then show ?thesis by (simp add: bit_cell_code)
  qed
qed

lemma step_tail_spec:
  assumes ok: "cells_ok ctx" and g: "in_grid (tail_xpos ctx) (tail_ypos ctx)"
  shows "\<exists>c. step_tail ctx = Inr c \<and> cells_ok c \<and>
     head_xpos c = head_xpos ctx \<and> head_ypos c = head_ypos ctx \<and> next_dir c = next_dir ctx \<and>
     occupied_cells c = occupied_cells ctx \<and>
     inhibit_tail_step c = (if inhibit_tail_step ctx - 1 = 0 then 1 else inhibit_tail_step ctx - 1) \<and>
     in_grid (tail_xpos c) (tail_ypos c) \<and>
     (if inhibit_tail_step ctx - 1 = 0 then
        sint (tail_xpos c) =
          (sint (tail_xpos ctx) + cell_dx (cell_code ctx (cell_index (tail_xpos ctx) (tail_ypos ctx)))) mod 24 \<and>
        sint (tail_ypos c) =
          (sint (tail_ypos ctx) + cell_dy (cell_code ctx (cell_index (tail_xpos ctx) (tail_ypos ctx)))) mod 18 \<and>
        (\<forall>j<SNAKE_MATRIX_SIZE. cell_code c j =
           (if j = cell_index (tail_xpos ctx) (tail_ypos ctx) then SNAKE_CELL_NOTHING
            else cell_code ctx j))
      else tail_xpos c = tail_xpos ctx \<and> tail_ypos c = tail_ypos ctx \<and> cells c = cells ctx)"
proof (cases "inhibit_tail_step ctx - 1 = 0")
  case True
  from step_tail_advance [OF True ok g] obtain c where
    c: "step_tail ctx = Inr c" "cells_ok c"
     "head_xpos c = head_xpos ctx" "head_ypos c = head_ypos ctx" "next_dir c = next_dir ctx"
     "occupied_cells c = occupied_cells ctx" "inhibit_tail_step c = 1"
     "sint (tail_xpos c) =
       (sint (tail_xpos ctx) + cell_dx (cell_code ctx (cell_index (tail_xpos ctx) (tail_ypos ctx)))) mod 24"
     "sint (tail_ypos c) =
       (sint (tail_ypos ctx) + cell_dy (cell_code ctx (cell_index (tail_xpos ctx) (tail_ypos ctx)))) mod 18"
     "\<forall>j<SNAKE_MATRIX_SIZE. cell_code c j =
        (if j = cell_index (tail_xpos ctx) (tail_ypos ctx) then SNAKE_CELL_NOTHING else cell_code ctx j)"
    by blast
  have "in_grid (tail_xpos c) (tail_ypos c)"
    unfolding in_grid_alt c(8,9) by simp
  with c True show ?thesis by simp
next
  case False
  with ok g show ?thesis
    by (simp add: step_tail_hold cells_ok_def)
qed

lemma snake_step_spec:
  assumes "grid_ok ctx"
  shows "\<exists>c1 c4. step_tail ctx = Inr c1 \<and> grid_ok c1 \<and> grid_ok (step_head c1) \<and>
      head_xpos c1 = head_xpos ctx \<and> head_ypos c1 = head_ypos ctx \<and>
      next_dir c1 = next_dir ctx \<and> occupied_cells c1 = occupied_cells ctx \<and>
      cells_ok c4 \<and> c4 = (step_head c1)\<lparr>cells := cells c4\<rparr> \<and>
      step_before_food ctx = Inr c4 \<and>
      found_at_head ctx =
        Inr (cell_code c1 (cell_index (head_xpos (step_head c1)) (head_ypos (step_head c1)))) \<and>
      (\<forall>j<SNAKE_MATRIX_SIZE. cell_code c4 j =
         (if j = cell_index (head_xpos (step_head c1)) (head_ypos (step_head c1)) \<or>
             j = cell_index (head_xpos ctx) (head_ypos ctx)
          then dir_value (next_dir ctx) + 1 else cell_code c1 j)) \<and>
      snake_step ctx rs =
        (if cell_code c1 (cell_index (head_xpos (step_head c1)) (head_ypos (step_head c1))) \<noteq> SNAKE_CELL_NOTHING \<and>
            cell_code c1 (cell_index (head_xpos (step_head c1)) (head_ypos (step_head c1))) \<noteq> SNAKE_CELL_FOOD
         then snake_initialize ctx rs
         else if cell_code c1 (cell_index (head_xpos (step_head c1)) (head_ypos (step_head c1))) = SNAKE_CELL_FOOD then
           (if are_cells_full ctx then snake_initialize ctx rs
            else case new_food_pos c4 rs of
                   Inl e \<Rightarrow> Inl e
                 | Inr (c5, rs') \<Rightarrow>
                     Inr ((c5\<lparr>inhibit_tail_step := inhibit_tail_step c5 + 1,
                              occupied_cells := occupied_cells c5 + 1\<rparr>), rs'))
         else Inr (c4, rs))"
proof -
  from assms have ok: "cells_ok ctx" and gh: "in_grid (head_xpos ctx) (head_ypos ctx)"
    and gt: "in_grid (tail_xpos ctx) (tail_ypos ctx)"
    by (simp_all add: grid_ok_def)
  from step_tail_spec [OF ok gt] obtain c1 where
    st: "step_tail ctx = Inr c1" and ok1: "cells_ok c1" and
    f1: "head_xpos c1 = head_xpos ctx" "head_ypos c1 = head_ypos ctx" "next_dir c1 = next_dir ctx"
      "occupied_cells c1 = occupied_cells ctx" and
    gt1: "in_grid (tail_xpos c1) (tail_ypos c1)"
    by blast
  let ?c2 = "step_head c1"
  from gh have gh1: "in_grid (head_xpos c1) (head_ypos c1)" by (simp add: f1)
  then have gh2: "in_grid (head_xpos ?c2) (head_ypos ?c2)" by (rule step_head_in_grid)
  have ok2: "cells_ok ?c2" using ok1 by (simp add: cells_ok_def step_head_frame)
  have g1: "grid_ok c1" using ok1 gh1 gt1 by (simp add: grid_ok_def)
  have g2: "grid_ok ?c2" using ok2 gh2 gt1 by (simp add: grid_ok_def step_head_frame)
  have cc: "cell_code ?c2 j = cell_code c1 j" if "j < SNAKE_MATRIX_SIZE" for j
    using that by (intro cell_code_cells) (simp_all add: step_head_frame)
  have full: "are_cells_full ?c2 = are_cells_full ctx"
    by (simp add: are_cells_full_def step_head_frame f1)
  from step_collide_spec [OF ok2 gh2 gh dir_cell_le, of "next_dir ctx" rs] obtain c4 where
    ok4: "cells_ok c4" and fr4: "c4 = ?c2\<lparr>cells := cells c4\<rparr>" and
    puts: "(case put_cell_at ?c2 (head_xpos ctx) (head_ypos ctx) (dir_value (next_dir ctx) + 1) of
         Inl e \<Rightarrow> Inl e
       | Inr c3 \<Rightarrow> put_cell_at c3 (head_xpos c3) (head_ypos c3) (dir_value (next_dir ctx) + 1)) = Inr c4" and
    code4: "\<And>j. j < SNAKE_MATRIX_SIZE \<Longrightarrow> cell_code c4 j =
         (if j = cell_index (head_xpos ?c2) (head_ypos ?c2) \<or> j = cell_index (head_xpos ctx) (head_ypos ctx)
          then dir_value (next_dir ctx) + 1 else cell_code ?c2 j)" and
    coll: "step_collide (dir_value (next_dir ctx) + 1) (head_xpos ctx) (head_ypos ctx) ?c2 rs =
        (if cell_code ?c2 (cell_index (head_xpos ?c2) (head_ypos ?c2)) \<noteq> SNAKE_CELL_NOTHING \<and>
            cell_code ?c2 (cell_index (head_xpos ?c2) (head_ypos ?c2)) \<noteq> SNAKE_CELL_FOOD
         then snake_initialize ?c2 rs
         else if cell_code ?c2 (cell_index (head_xpos ?c2) (head_ypos ?c2)) = SNAKE_CELL_FOOD then
           (if are_cells_full ?c2 then snake_initialize c4 rs
            else case new_food_pos c4 rs of
                   Inl e \<Rightarrow> Inl e
                 | Inr (c5, rs') \<Rightarrow>
                     Inr ((c5\<lparr>inhibit_tail_step := inhibit_tail_step c5 + 1,
                              occupied_cells := occupied_cells c5 + 1\<rparr>), rs'))
         else Inr (c4, rs))"
    by blast
  have hidx: "cell_index (head_xpos ?c2) (head_ypos ?c2) < SNAKE_MATRIX_SIZE"
    using in_grid_index(1) [OF gh2] .
  have step: "snake_step ctx rs =
      step_collide (dir_value (next_dir ctx) + 1) (head_xpos ctx) (head_ypos ctx) ?c2 rs"
    by (simp add: snake_step_def st f1)
  have "snake_step ctx rs =
        (if cell_code c1 (cell_index (head_xpos ?c2) (head_ypos ?c2)) \<noteq> SNAKE_CELL_NOTHING \<and>
            cell_code c1 (cell_index (head_xpos ?c2) (head_ypos ?c2)) \<noteq> SNAKE_CELL_FOOD
         then snake_initialize ctx rs
         else if cell_code c1 (cell_index (head_xpos ?c2) (head_ypos ?c2)) = SNAKE_CELL_FOOD then
           (if are_cells_full ctx then snake_initialize ctx rs
            else case new_food_pos c4 rs of
                   Inl e \<Rightarrow> Inl e
                 | Inr (c5, rs') \<Rightarrow>
                     Inr ((c5\<lparr>inhibit_tail_step := inhibit_tail_step c5 + 1,
                              occupied_cells := occupied_cells c5 + 1\<rparr>), rs'))
         else Inr (c4, rs))"
    unfolding step coll full cc [OF hidx]
    using snake_initialize_any [of ?c2 rs ctx] snake_initialize_any [of c4 rs ctx] by simp
  moreover have "\<forall>j<SNAKE_MATRIX_SIZE. cell_code c4 j =
         (if j = cell_index (head_xpos ?c2) (head_ypos ?c2) \<or> j = cell_index (head_xpos ctx) (head_ypos ctx)
          then dir_value (next_dir ctx) + 1 else cell_code c1 j)"
    by (simp add: code4 cc)
  moreover have "step_before_food ctx = Inr c4"
    using puts by (simp add: step_before_food_def st f1)
  moreover have "found_at_head ctx =
      Inr (cell_code c1 (cell_index (head_xpos ?c2) (head_ypos ?c2)))"
    by (simp add: found_at_head_def st snake_cell_at_code [OF gh2] cc [OF hidx])
  ultimately show ?thesis using st g1 g2 f1 ok4 fr4 by blast
qed

subsection \<open>The claims about a step\<close>

text \<open>
  Claim C2: when \<^verbatim>\<open>snake_step\<close> finds a body cell under the new head, or food there while
  the occupied-cell count equals width times height, its result is that of a fresh
  \<^verbatim>\<open>snake_initialize\<close> on the same draws (whatever context that starts from), and nothing
  else: head and tail at \<open>(12, 9)\<close>, counter 4, count 7.
\<close>

theorem reset_on_collision_or_win:
  assumes ok: "grid_ok ctx" and found: "found_at_head ctx = Inr ct"
    and ct: "ct \<in> {SNAKE_CELL_SRIGHT, SNAKE_CELL_SUP, SNAKE_CELL_SLEFT, SNAKE_CELL_SDOWN} \<or>
             (ct = SNAKE_CELL_FOOD \<and> are_cells_full ctx)"
  shows "snake_step ctx rs = snake_initialize c0 rs \<and>
         (\<forall>ctx' rs'. snake_step ctx rs = Inr (ctx', rs') \<longrightarrow>
            head_xpos ctx' = 12 \<and> head_ypos ctx' = 9 \<and> tail_xpos ctx' = 12 \<and> tail_ypos ctx' = 9 \<and>
            next_dir ctx' = SNAKE_DIR_RIGHT \<and> inhibit_tail_step ctx' = 4 \<and> occupied_cells ctx' = 7)"
proof -
  from snake_step_spec [OF ok, of rs] obtain c1 c4 where
    f: "found_at_head ctx =
        Inr (cell_code c1 (cell_index (head_xpos (step_head c1)) (head_ypos (step_head c1))))" and
    step: "snake_step ctx rs =
        (if cell_code c1 (cell_index (head_xpos (step_head c1)) (head_ypos (step_head c1))) \<noteq> SNAKE_CELL_NOTHING \<and>
            cell_code c1 (cell_index (head_xpos (step_head c1)) (head_ypos (step_head c1))) \<noteq> SNAKE_CELL_FOOD
         then snake_initialize ctx rs
         else if cell_code c1 (cell_index (head_xpos (step_head c1)) (head_ypos (step_head c1))) = SNAKE_CELL_FOOD then
           (if are_cells_full ctx then snake_initialize ctx rs
            else case new_food_pos c4 rs of
                   Inl e \<Rightarrow> Inl e
                 | Inr (c5, rs') \<Rightarrow>
                     Inr ((c5\<lparr>inhibit_tail_step := inhibit_tail_step c5 + 1,
                              occupied_cells := occupied_cells c5 + 1\<rparr>), rs'))
         else Inr (c4, rs))"
    by blast
  from f found have "cell_code c1 (cell_index (head_xpos (step_head c1)) (head_ypos (step_head c1))) = ct"
    by simp
  with step ct have "snake_step ctx rs = snake_initialize ctx rs"
    by (auto simp add: cell_names)
  then have eq: "snake_step ctx rs = snake_initialize c0 rs"
    using snake_initialize_any [of ctx rs c0] by simp
  have "head_xpos ctx' = 12 \<and> head_ypos ctx' = 9 \<and> tail_xpos ctx' = 12 \<and> tail_ypos ctx' = 9 \<and>
      next_dir ctx' = SNAKE_DIR_RIGHT \<and> inhibit_tail_step ctx' = 4 \<and> occupied_cells ctx' = 7"
    if "snake_step ctx rs = Inr (ctx', rs')" for ctx' rs'
    using snake_initialize_spec [of c0 rs ctx' rs'] that eq by simp
  with eq show ?thesis by blast
qed

theorem reset_on_collision_or_win_witness:
  "grid_ok collision_context \<and> found_at_head collision_context = Inr SNAKE_CELL_SUP \<and>
   snake_step collision_context [0, 0, 1, 0, 2, 0, 3, 0]
     = snake_initialize blank_context [0, 0, 1, 0, 2, 0, 3, 0] \<and>
   (\<exists>c. snake_step collision_context [0, 0, 1, 0, 2, 0, 3, 0] = Inr (c, []) \<and>
        head_xpos c = 12 \<and> head_ypos c = 9 \<and> inhibit_tail_step c = 4 \<and> occupied_cells c = 7)"
proof -
  have ok: "grid_ok collision_context"
    by code_simp
  have found: "found_at_head collision_context = Inr SNAKE_CELL_SUP"
    by code_simp
  have ct: "SNAKE_CELL_SUP \<in> {SNAKE_CELL_SRIGHT, SNAKE_CELL_SUP, SNAKE_CELL_SLEFT, SNAKE_CELL_SDOWN} \<or>
             (SNAKE_CELL_SUP = SNAKE_CELL_FOOD \<and> are_cells_full collision_context)"
    by simp
  from reset_on_collision_or_win [OF ok found ct, of "[0, 0, 1, 0, 2, 0, 3, 0]" blank_context]
  have eq: "snake_step collision_context [0, 0, 1, 0, 2, 0, 3, 0]
     = snake_initialize blank_context [0, 0, 1, 0, 2, 0, 3, 0]"
    by blast
  have "case snake_initialize blank_context [0, 0, 1, 0, 2, 0, 3, 0] of
      Inl e \<Rightarrow> False
    | Inr (c, r) \<Rightarrow> r = [] \<and> head_xpos c = 12 \<and> head_ypos c = 9 \<and> inhibit_tail_step c = 4 \<and>
        occupied_cells c = 7"
    by code_simp
  then have "\<exists>c. snake_initialize blank_context [0, 0, 1, 0, 2, 0, 3, 0] = Inr (c, []) \<and>
        head_xpos c = 12 \<and> head_ypos c = 9 \<and> inhibit_tail_step c = 4 \<and> occupied_cells c = 7"
    by (auto split: sum.splits)
  with ok found eq show ?thesis by simp
qed


subsection \<open>What every operation preserves\<close>

lemma snake_redir_frame:
  assumes "snake_redir ctx d = Inr c'"
  shows "c' = ctx \<or> c' = ctx\<lparr>next_dir := d\<rparr>"
  using assms by (auto simp add: snake_redir_def split: sum.splits if_splits)

lemma snake_redir_grid_ok:
  assumes "grid_ok ctx" and "snake_redir ctx d = Inr c'"
  shows "grid_ok c'"
  using snake_redir_frame [OF assms(2)] assms(1)
  by (auto simp add: grid_ok_def cells_ok_def)

lemma snake_initialize_grid_ok:
  assumes "snake_initialize c rs = Inr (c', rs')"
  shows "grid_ok c'"
  using snake_initialize_spec [OF assms] centre(1)
  by (simp add: grid_ok_def)

lemma grid_ok_frame:
  assumes "grid_ok c" and "c' = c\<lparr>cells := cs\<rparr>" and "cells_ok c'"
  shows "grid_ok c'"
  using assms(1,3) frame_cells [OF assms(2)] by (simp add: grid_ok_def)

lemma snake_step_grid_ok:
  assumes ok: "grid_ok ctx" and res: "snake_step ctx rs = Inr (c', rs')"
  shows "grid_ok c'"
proof -
  from snake_step_spec [OF ok, of rs] obtain c1 c4 where
    g2: "grid_ok (step_head c1)" and
    ok4: "cells_ok c4" and fr4: "c4 = (step_head c1)\<lparr>cells := cells c4\<rparr>" and
    step: "snake_step ctx rs =
        (if cell_code c1 (cell_index (head_xpos (step_head c1)) (head_ypos (step_head c1))) \<noteq> SNAKE_CELL_NOTHING \<and>
            cell_code c1 (cell_index (head_xpos (step_head c1)) (head_ypos (step_head c1))) \<noteq> SNAKE_CELL_FOOD
         then snake_initialize ctx rs
         else if cell_code c1 (cell_index (head_xpos (step_head c1)) (head_ypos (step_head c1))) = SNAKE_CELL_FOOD then
           (if are_cells_full ctx then snake_initialize ctx rs
            else case new_food_pos c4 rs of
                   Inl e \<Rightarrow> Inl e
                 | Inr (c5, rs') \<Rightarrow>
                     Inr ((c5\<lparr>inhibit_tail_step := inhibit_tail_step c5 + 1,
                              occupied_cells := occupied_cells c5 + 1\<rparr>), rs'))
         else Inr (c4, rs))"
    by blast
  have g4: "grid_ok c4" using g2 fr4 ok4 by (rule grid_ok_frame)
  consider (reset) "snake_initialize ctx rs = Inr (c', rs')"
    | (eat) c5 where "new_food_pos c4 rs = Inr (c5, rs')"
        "c' = c5\<lparr>inhibit_tail_step := inhibit_tail_step c5 + 1,
                  occupied_cells := occupied_cells c5 + 1\<rparr>"
    | (move) "c' = c4"
    using res unfolding step by (auto split: if_splits sum.splits)
  then show ?thesis
  proof cases
    case reset
    then show ?thesis by (rule snake_initialize_grid_ok)
  next
    case eat
    from new_food_pos_spec [OF ok4 eat(1)] have "cells_ok c5" and "c5 = c4\<lparr>cells := cells c5\<rparr>"
      by blast+
    with g4 have "grid_ok c5" by (intro grid_ok_frame [of c4 c5 "cells c5"])
    then show ?thesis by (simp add: eat(2) grid_ok_def cells_ok_def)
  next
    case move
    with g4 show ?thesis by simp
  qed
qed

lemma new_food_pos_in_object:
  assumes "cells_ok ctx"
  shows "new_food_pos ctx rs \<noteq> Inl OutOfObject"
proof (induction rs rule: induct_list012)
  case 1
  show ?case by (simp add: new_food_pos.simps)
next
  case (2 x)
  show ?case by (simp add: new_food_pos.simps)
next
  case (3 rx ry rs)
  show ?case
  proof (cases "cell_code ctx (cell_index (of_nat (rx mod SNAKE_GAME_WIDTH)) (of_nat (ry mod SNAKE_GAME_HEIGHT)))
          = SNAKE_CELL_NOTHING")
    case True
    from new_food_pos_hit [OF assms True] show ?thesis by auto
  next
    case False
    from new_food_pos_miss [OF False] 3(1) show ?thesis by simp
  qed
qed

lemma initial_food_in_object:
  assumes "cells_ok ctx"
  shows "initial_food i ctx rs \<noteq> Inl OutOfObject"
  using assms
proof (induction i ctx rs rule: initial_food.induct)
  case (1 i ctx rs)
  show ?case
  proof (cases "i < 4")
    case False
    then show ?thesis by (simp add: initial_food.simps [of i])
  next
    case True
    show ?thesis
    proof (cases "new_food_pos ctx rs")
      case (Inl e)
      with new_food_pos_in_object [OF "1.prems", of rs] True show ?thesis
        by (simp add: initial_food.simps [of i])
    next
      case (Inr p)
      obtain c1 r1 where p: "p = (c1, r1)" by (cases p)
      from new_food_pos_spec [OF "1.prems" Inr [unfolded p]] have "cells_ok c1" by blast
      then have "cells_ok (c1\<lparr>occupied_cells := occupied_cells c1 + 1\<rparr>)"
        by (simp add: cells_ok_def)
      from "1.IH" [OF True Inr [unfolded p] refl this] True Inr p show ?thesis
        by (simp add: initial_food.simps [of i])
    qed
  qed
qed

lemma snake_initialize_in_object: "snake_initialize ctx rs \<noteq> Inl OutOfObject"
proof -
  define c6 where "c6 = ctx\<lparr>cells := replicate CELLS_SIZE 0, tail_xpos := 12, head_xpos := 12,
    tail_ypos := 9, head_ypos := 9, next_dir := SNAKE_DIR_RIGHT, inhibit_tail_step := 4,
    occupied_cells := 3\<rparr>"
  have ok6: "cells_ok c6" by (simp add: c6_def cells_ok_def)
  have init: "snake_initialize ctx rs = (case put_cell_at c6 12 9 SNAKE_CELL_SRIGHT of
      Inl e \<Rightarrow> Inl e | Inr ctx7 \<Rightarrow> initial_food 0 ctx7 rs)"
    by (simp add: snake_initialize_def c6_def grid_consts)
  from put_cell_at_code [OF centre(1) ok6, of SNAKE_CELL_SRIGHT] obtain c7 where
    "put_cell_at c6 12 9 SNAKE_CELL_SRIGHT = Inr c7" and "cells_ok c7"
    by blast
  with initial_food_in_object [of c7 0 rs] show ?thesis
    by (simp add: init)
qed

lemma snake_step_in_object:
  assumes ok: "grid_ok ctx"
  shows "snake_step ctx rs \<noteq> Inl OutOfObject"
proof -
  from snake_step_spec [OF ok, of rs] obtain c1 c4 where
    ok4: "cells_ok c4" and
    step: "snake_step ctx rs =
        (if cell_code c1 (cell_index (head_xpos (step_head c1)) (head_ypos (step_head c1))) \<noteq> SNAKE_CELL_NOTHING \<and>
            cell_code c1 (cell_index (head_xpos (step_head c1)) (head_ypos (step_head c1))) \<noteq> SNAKE_CELL_FOOD
         then snake_initialize ctx rs
         else if cell_code c1 (cell_index (head_xpos (step_head c1)) (head_ypos (step_head c1))) = SNAKE_CELL_FOOD then
           (if are_cells_full ctx then snake_initialize ctx rs
            else case new_food_pos c4 rs of
                   Inl e \<Rightarrow> Inl e
                 | Inr (c5, rs') \<Rightarrow>
                     Inr ((c5\<lparr>inhibit_tail_step := inhibit_tail_step c5 + 1,
                              occupied_cells := occupied_cells c5 + 1\<rparr>), rs'))
         else Inr (c4, rs))"
    by blast
  show ?thesis
    unfolding step
    using snake_initialize_in_object [of ctx rs] new_food_pos_in_object [OF ok4, of rs]
    by (auto split: sum.splits)
qed

lemma snake_redir_in_object:
  assumes "grid_ok ctx"
  shows "\<exists>c'. snake_redir ctx d = Inr c'"
  using assms
  by (simp add: snake_redir_def grid_ok_def snake_cell_at_code)

lemma step_tail_read:
  assumes ok: "grid_ok ctx"
  shows "\<exists>c ct. step_tail ctx = Inr c \<and>
      snake_cell_at ctx (tail_xpos ctx) (tail_ypos ctx) = Inr ct \<and>
      inhibit_tail_step c = (if inhibit_tail_step ctx - 1 = 0 then 1 else inhibit_tail_step ctx - 1) \<and>
      (if inhibit_tail_step ctx - 1 = 0 then
         snake_cell_at c (tail_xpos ctx) (tail_ypos ctx) = Inr SNAKE_CELL_NOTHING \<and>
         sint (tail_xpos c) = (sint (tail_xpos ctx) + cell_dx ct) mod int SNAKE_GAME_WIDTH \<and>
         sint (tail_ypos c) = (sint (tail_ypos ctx) + cell_dy ct) mod int SNAKE_GAME_HEIGHT
       else tail_xpos c = tail_xpos ctx \<and> tail_ypos c = tail_ypos ctx \<and> cells c = cells ctx)"
proof -
  from ok have cok: "cells_ok ctx" and gt: "in_grid (tail_xpos ctx) (tail_ypos ctx)"
    by (simp_all add: grid_ok_def)
  let ?i = "cell_index (tail_xpos ctx) (tail_ypos ctx)"
  from step_tail_spec [OF cok gt] obtain c where
    st: "step_tail ctx = Inr c" and
    inh: "inhibit_tail_step c = (if inhibit_tail_step ctx - 1 = 0 then 1 else inhibit_tail_step ctx - 1)" and
    rest: "if inhibit_tail_step ctx - 1 = 0 then
        sint (tail_xpos c) = (sint (tail_xpos ctx) + cell_dx (cell_code ctx ?i)) mod 24 \<and>
        sint (tail_ypos c) = (sint (tail_ypos ctx) + cell_dy (cell_code ctx ?i)) mod 18 \<and>
        (\<forall>j<SNAKE_MATRIX_SIZE. cell_code c j = (if j = ?i then SNAKE_CELL_NOTHING else cell_code ctx j))
      else tail_xpos c = tail_xpos ctx \<and> tail_ypos c = tail_ypos ctx \<and> cells c = cells ctx"
    by blast
  have rd: "snake_cell_at ctx (tail_xpos ctx) (tail_ypos ctx) = Inr (cell_code ctx ?i)"
    by (rule snake_cell_at_code [OF gt])
  have "if inhibit_tail_step ctx - 1 = 0 then
         snake_cell_at c (tail_xpos ctx) (tail_ypos ctx) = Inr SNAKE_CELL_NOTHING \<and>
         sint (tail_xpos c) = (sint (tail_xpos ctx) + cell_dx (cell_code ctx ?i)) mod int SNAKE_GAME_WIDTH \<and>
         sint (tail_ypos c) = (sint (tail_ypos ctx) + cell_dy (cell_code ctx ?i)) mod int SNAKE_GAME_HEIGHT
       else tail_xpos c = tail_xpos ctx \<and> tail_ypos c = tail_ypos ctx \<and> cells c = cells ctx"
    using rest in_grid_index(1) [OF gt]
    by (simp add: snake_cell_at_code [OF gt] grid_consts split: if_splits)
  with st rd inh show ?thesis by blast
qed

text \<open>
  Claim C7: for an in-bounds coordinate, \<^verbatim>\<open>wrap_around_\<close> after a move by one cell stores
  the unwrapped result reduced modulo the width (24) or the height (18); so after the head
  block and after the tail block of \<^verbatim>\<open>snake_step\<close> the position is the old one plus the
  unit step, modulo width and height. Head and tail therefore stay on the playfield
  through \<^verbatim>\<open>snake_initialize\<close>, \<^verbatim>\<open>snake_redir\<close> and \<^verbatim>\<open>snake_step\<close>, and no access of a step
  leaves the context.
\<close>

theorem toroidal_wrap:
  "(0 \<le> sint v \<and> sint v < int SNAKE_GAME_WIDTH \<longrightarrow>
      sint (wrap_around (v + 1) (of_nat SNAKE_GAME_WIDTH)) = (sint v + 1) mod int SNAKE_GAME_WIDTH \<and>
      sint (wrap_around (v - 1) (of_nat SNAKE_GAME_WIDTH)) = (sint v - 1) mod int SNAKE_GAME_WIDTH) \<and>
   (0 \<le> sint v \<and> sint v < int SNAKE_GAME_HEIGHT \<longrightarrow>
      sint (wrap_around (v + 1) (of_nat SNAKE_GAME_HEIGHT)) = (sint v + 1) mod int SNAKE_GAME_HEIGHT \<and>
      sint (wrap_around (v - 1) (of_nat SNAKE_GAME_HEIGHT)) = (sint v - 1) mod int SNAKE_GAME_HEIGHT) \<and>
   (grid_ok ctx \<longrightarrow>
      sint (head_xpos (step_head ctx)) =
        (sint (head_xpos ctx) + cell_dx (dir_value (next_dir ctx) + 1)) mod int SNAKE_GAME_WIDTH \<and>
      sint (head_ypos (step_head ctx)) =
        (sint (head_ypos ctx) + cell_dy (dir_value (next_dir ctx) + 1)) mod int SNAKE_GAME_HEIGHT \<and>
      (\<exists>c ct. step_tail ctx = Inr c \<and>
         snake_cell_at ctx (tail_xpos ctx) (tail_ypos ctx) = Inr ct \<and>
         (if inhibit_tail_step ctx - 1 = 0 then
            sint (tail_xpos c) = (sint (tail_xpos ctx) + cell_dx ct) mod int SNAKE_GAME_WIDTH \<and>
            sint (tail_ypos c) = (sint (tail_ypos ctx) + cell_dy ct) mod int SNAKE_GAME_HEIGHT
          else tail_xpos c = tail_xpos ctx \<and> tail_ypos c = tail_ypos ctx)) \<and>
      (\<forall>ctx' rs'. snake_step ctx rs = Inr (ctx', rs') \<longrightarrow> grid_ok ctx') \<and>
      snake_step ctx rs \<noteq> Inl OutOfObject \<and>
      (\<exists>ctx'. snake_redir ctx d = Inr ctx' \<and> grid_ok ctx')) \<and>
   (\<forall>ctx' rs'. snake_initialize ctx rs = Inr (ctx', rs') \<longrightarrow> grid_ok ctx')"
proof (intro conjI impI allI)
  assume "0 \<le> sint v \<and> sint v < int SNAKE_GAME_WIDTH"
  then have r: "0 \<le> sint v" "sint v < 24" by (simp_all add: grid_consts)
  show "sint (wrap_around (v + 1) (of_nat SNAKE_GAME_WIDTH)) = (sint v + 1) mod int SNAKE_GAME_WIDTH"
    using move_x(1) [OF r] by (simp add: grid_consts)
  show "sint (wrap_around (v - 1) (of_nat SNAKE_GAME_WIDTH)) = (sint v - 1) mod int SNAKE_GAME_WIDTH"
    using move_x(2) [OF r] by (simp add: grid_consts)
next
  assume "0 \<le> sint v \<and> sint v < int SNAKE_GAME_HEIGHT"
  then have r: "0 \<le> sint v" "sint v < 18" by (simp_all add: grid_consts)
  show "sint (wrap_around (v + 1) (of_nat SNAKE_GAME_HEIGHT)) = (sint v + 1) mod int SNAKE_GAME_HEIGHT"
    using move_y(1) [OF r] by (simp add: grid_consts)
  show "sint (wrap_around (v - 1) (of_nat SNAKE_GAME_HEIGHT)) = (sint v - 1) mod int SNAKE_GAME_HEIGHT"
    using move_y(2) [OF r] by (simp add: grid_consts)
next
  assume ok: "grid_ok ctx"
  then have gh: "in_grid (head_xpos ctx) (head_ypos ctx)" by (simp add: grid_ok_def)
  show "sint (head_xpos (step_head ctx)) =
        (sint (head_xpos ctx) + cell_dx (dir_value (next_dir ctx) + 1)) mod int SNAKE_GAME_WIDTH"
    using step_head_move(1) [OF gh] by (simp add: grid_consts)
  show "sint (head_ypos (step_head ctx)) =
        (sint (head_ypos ctx) + cell_dy (dir_value (next_dir ctx) + 1)) mod int SNAKE_GAME_HEIGHT"
    using step_head_move(2) [OF gh] by (simp add: grid_consts)
  from step_tail_read [OF ok]
  show "\<exists>c ct. step_tail ctx = Inr c \<and>
         snake_cell_at ctx (tail_xpos ctx) (tail_ypos ctx) = Inr ct \<and>
         (if inhibit_tail_step ctx - 1 = 0 then
            sint (tail_xpos c) = (sint (tail_xpos ctx) + cell_dx ct) mod int SNAKE_GAME_WIDTH \<and>
            sint (tail_ypos c) = (sint (tail_ypos ctx) + cell_dy ct) mod int SNAKE_GAME_HEIGHT
          else tail_xpos c = tail_xpos ctx \<and> tail_ypos c = tail_ypos ctx)"
    by (auto split: if_splits)
  show "snake_step ctx rs \<noteq> Inl OutOfObject"
    using ok by (rule snake_step_in_object)
  from snake_redir_in_object [OF ok, of d] snake_redir_grid_ok [OF ok, of d]
  show "\<exists>ctx'. snake_redir ctx d = Inr ctx' \<and> grid_ok ctx'"
    by blast
  fix ctx' rs'
  assume "snake_step ctx rs = Inr (ctx', rs')"
  with ok show "grid_ok ctx'" by (rule snake_step_grid_ok)
next
  fix ctx' rs'
  assume "snake_initialize ctx rs = Inr (ctx', rs')"
  then show "grid_ok ctx'" by (rule snake_initialize_grid_ok)
qed

theorem toroidal_wrap_witness:
  "sint (wrap_around (23 + 1) (of_nat SNAKE_GAME_WIDTH)) = 0 \<and>
   sint (wrap_around (17 + 1) (of_nat SNAKE_GAME_HEIGHT)) = 0 \<and>
   grid_ok edge_context \<and>
   sint (head_xpos (step_head edge_context)) = 0 \<and>
   (\<exists>c. snake_step edge_context [] = Inr (c, []) \<and> grid_ok c \<and>
      head_xpos c = 0 \<and> head_ypos c = 0 \<and> tail_xpos c = 23 \<and> tail_ypos c = 17)"
proof -
  have ok: "grid_ok edge_context"
    by code_simp
  have "case snake_step edge_context [] of
      Inl e \<Rightarrow> False
    | Inr (c, r) \<Rightarrow> r = [] \<and> head_xpos c = 0 \<and> head_ypos c = 0 \<and> tail_xpos c = 23 \<and> tail_ypos c = 17"
    by code_simp
  then obtain c where run: "snake_step edge_context [] = Inr (c, [])"
    and c: "head_xpos c = 0" "head_ypos c = 0" "tail_xpos c = 23" "tail_ypos c = 17"
    by (auto split: sum.splits)
  have w: "0 \<le> sint (23 :: c_char) \<and> sint (23 :: c_char) < int SNAKE_GAME_WIDTH"
    and h: "0 \<le> sint (17 :: c_char) \<and> sint (17 :: c_char) < int SNAKE_GAME_HEIGHT"
    by (simp_all add: grid_consts)
  from toroidal_wrap [of 23 edge_context "[]" SNAKE_DIR_UP] w
  have "sint (wrap_around (23 + 1) (of_nat SNAKE_GAME_WIDTH)) = (sint (23 :: c_char) + 1) mod int SNAKE_GAME_WIDTH"
    by blast
  then have a: "sint (wrap_around (23 + 1) (of_nat SNAKE_GAME_WIDTH)) = 0"
    by (simp add: grid_consts)
  from toroidal_wrap [of 17 edge_context "[]" SNAKE_DIR_UP] h
  have "sint (wrap_around (17 + 1) (of_nat SNAKE_GAME_HEIGHT)) = (sint (17 :: c_char) + 1) mod int SNAKE_GAME_HEIGHT"
    by blast
  then have b: "sint (wrap_around (17 + 1) (of_nat SNAKE_GAME_HEIGHT)) = 0"
    by (simp add: grid_consts)
  from toroidal_wrap [of 0 edge_context "[]" SNAKE_DIR_UP] ok
  have "sint (head_xpos (step_head edge_context)) =
        (sint (head_xpos edge_context) + cell_dx (dir_value (next_dir edge_context) + 1)) mod int SNAKE_GAME_WIDTH"
    and "\<forall>ctx' rs'. snake_step edge_context [] = Inr (ctx', rs') \<longrightarrow> grid_ok ctx'"
    by blast+
  then have "sint (head_xpos (step_head edge_context)) = 0" and "grid_ok c"
    using run by (simp_all add: edge_context_def cell_dx_def cell_names grid_consts)
  with a b ok run c show ?thesis by blast
qed

lemma counter_after_tail:
  assumes "1 \<le> sint (i :: c_char)"
  shows "1 \<le> sint (if i - 1 = 0 then 1 else i - 1)"
    and "sint (if i - 1 = 0 then 1 else i - 1) < 127"
    and "1 \<le> sint ((if i - 1 = 0 then 1 else i - 1) + 1)"
proof -
  from assms have d: "sint (i - 1) = sint i - 1" by (simp add: sint_char_dec)
  have lt: "sint i < 128" using sint_lt [of i] by simp
  have nz: "sint (i - 1) \<noteq> 0" if "i - 1 \<noteq> 0"
    using that by (metis signed_0 signed_word_eqI)
  show a: "1 \<le> sint (if i - 1 = 0 then 1 else i - 1)"
    using assms d nz by (cases "i - 1 = 0") simp_all
  show b: "sint (if i - 1 = 0 then 1 else i - 1) < 127"
    using d lt by (cases "i - 1 = 0") simp_all
  from sint_char_inc [OF b] a
  show "1 \<le> sint ((if i - 1 = 0 then 1 else i - 1) + 1)"
    by simp
qed

lemma snake_step_counter:
  assumes ok: "grid_ok ctx" and pos: "1 \<le> sint (inhibit_tail_step ctx)"
    and res: "snake_step ctx rs = Inr (c', rs')"
  shows "1 \<le> sint (inhibit_tail_step c')"
proof -
  from snake_step_spec [OF ok, of rs] obtain c1 c4 where
    st: "step_tail ctx = Inr c1" and
    ok4: "cells_ok c4" and fr4: "c4 = (step_head c1)\<lparr>cells := cells c4\<rparr>" and
    step: "snake_step ctx rs =
        (if cell_code c1 (cell_index (head_xpos (step_head c1)) (head_ypos (step_head c1))) \<noteq> SNAKE_CELL_NOTHING \<and>
            cell_code c1 (cell_index (head_xpos (step_head c1)) (head_ypos (step_head c1))) \<noteq> SNAKE_CELL_FOOD
         then snake_initialize ctx rs
         else if cell_code c1 (cell_index (head_xpos (step_head c1)) (head_ypos (step_head c1))) = SNAKE_CELL_FOOD then
           (if are_cells_full ctx then snake_initialize ctx rs
            else case new_food_pos c4 rs of
                   Inl e \<Rightarrow> Inl e
                 | Inr (c5, rs') \<Rightarrow>
                     Inr ((c5\<lparr>inhibit_tail_step := inhibit_tail_step c5 + 1,
                              occupied_cells := occupied_cells c5 + 1\<rparr>), rs'))
         else Inr (c4, rs))"
    by blast
  from step_tail_read [OF ok] st
  have i1: "inhibit_tail_step c1 =
      (if inhibit_tail_step ctx - 1 = 0 then 1 else inhibit_tail_step ctx - 1)"
    by auto
  have i4: "inhibit_tail_step c4 = inhibit_tail_step c1"
    using frame_cells(6) [OF fr4] by (simp add: step_head_frame)
  consider (reset) "snake_initialize ctx rs = Inr (c', rs')"
    | (eat) c5 where "new_food_pos c4 rs = Inr (c5, rs')"
        "c' = c5\<lparr>inhibit_tail_step := inhibit_tail_step c5 + 1,
                  occupied_cells := occupied_cells c5 + 1\<rparr>"
    | (move) "c' = c4"
    using res unfolding step by (auto split: if_splits sum.splits)
  then show ?thesis
  proof cases
    case reset
    from snake_initialize_spec [OF reset] have "inhibit_tail_step c' = 4" by blast
    then show ?thesis by simp
  next
    case eat
    from new_food_pos_spec [OF ok4 eat(1)] have "c5 = c4\<lparr>cells := cells c5\<rparr>" by blast
    from frame_cells(6) [OF this] have "inhibit_tail_step c' = inhibit_tail_step c1 + 1"
      by (simp add: eat(2) i4)
    with counter_after_tail(3) [OF pos] show ?thesis by (simp add: i1)
  next
    case move
    with counter_after_tail(1) [OF pos] show ?thesis by (simp add: i4 i1)
  qed
qed

subsection \<open>Growth and the held tail\<close>

lemma dir_cell_body: "is_body (dir_value d + 1)"
  by (cases d) (simp_all add: is_body_def cell_names)

lemma not_body: "\<not> is_body SNAKE_CELL_NOTHING" "\<not> is_body SNAKE_CELL_FOOD"
  by (simp_all add: is_body_def cell_names)


lemma snake_step_reset:
  assumes ok: "grid_ok ctx" and r: "step_resets ctx"
  shows "snake_step ctx rs = snake_initialize ctx rs"
proof -
  from snake_step_spec [OF ok, of rs] obtain c1 c4 where
    f: "found_at_head ctx =
        Inr (cell_code c1 (cell_index (head_xpos (step_head c1)) (head_ypos (step_head c1))))" and
    step: "snake_step ctx rs =
        (if cell_code c1 (cell_index (head_xpos (step_head c1)) (head_ypos (step_head c1))) \<noteq> SNAKE_CELL_NOTHING \<and>
            cell_code c1 (cell_index (head_xpos (step_head c1)) (head_ypos (step_head c1))) \<noteq> SNAKE_CELL_FOOD
         then snake_initialize ctx rs
         else if cell_code c1 (cell_index (head_xpos (step_head c1)) (head_ypos (step_head c1))) = SNAKE_CELL_FOOD then
           (if are_cells_full ctx then snake_initialize ctx rs
            else case new_food_pos c4 rs of
                   Inl e \<Rightarrow> Inl e
                 | Inr (c5, rs') \<Rightarrow>
                     Inr ((c5\<lparr>inhibit_tail_step := inhibit_tail_step c5 + 1,
                              occupied_cells := occupied_cells c5 + 1\<rparr>), rs'))
         else Inr (c4, rs))"
    by blast
  from r f show ?thesis
    unfolding step by (auto simp add: step_resets_def)
qed

lemma snake_step_no_reset:
  assumes ok: "grid_ok ctx" and nr: "\<not> step_resets ctx"
    and res: "snake_step ctx rs = Inr (ctx', rs')" and st: "step_tail ctx = Inr c1"
  shows "tail_xpos ctx' = tail_xpos c1 \<and> tail_ypos ctx' = tail_ypos c1 \<and>
         head_xpos ctx' = head_xpos (step_head c1) \<and> head_ypos ctx' = head_ypos (step_head c1) \<and>
         inhibit_tail_step ctx' =
           (if found_at_head ctx = Inr SNAKE_CELL_FOOD then inhibit_tail_step c1 + 1
            else inhibit_tail_step c1) \<and>
         is_body (cell_code ctx' (cell_index (head_xpos ctx') (head_ypos ctx'))) \<and>
         {j. j < SNAKE_MATRIX_SIZE \<and> is_body (cell_code ctx' j)} =
           insert (cell_index (head_xpos (step_head c1)) (head_ypos (step_head c1)))
             (insert (cell_index (head_xpos ctx) (head_ypos ctx))
                {j. j < SNAKE_MATRIX_SIZE \<and> is_body (cell_code c1 j)}) \<and>
         \<not> is_body (cell_code c1 (cell_index (head_xpos (step_head c1)) (head_ypos (step_head c1)))) \<and>
         (\<forall>j<SNAKE_MATRIX_SIZE.
            j \<noteq> cell_index (head_xpos (step_head c1)) (head_ypos (step_head c1)) \<and>
            j \<noteq> cell_index (head_xpos ctx) (head_ypos ctx) \<and>
            cell_code ctx' j \<noteq> SNAKE_CELL_FOOD \<longrightarrow>
            cell_code ctx' j = cell_code c1 j)"
proof -
  let ?h2 = "cell_index (head_xpos (step_head c1)) (head_ypos (step_head c1))"
  let ?h1 = "cell_index (head_xpos ctx) (head_ypos ctx)"
  let ?dc = "dir_value (next_dir ctx) + 1"
  from snake_step_spec [OF ok, of rs] st obtain c4 where
    g2: "grid_ok (step_head c1)" and
    ok4: "cells_ok c4" and fr4: "c4 = (step_head c1)\<lparr>cells := cells c4\<rparr>" and
    f: "found_at_head ctx = Inr (cell_code c1 ?h2)" and
    code4: "\<And>j. j < SNAKE_MATRIX_SIZE \<Longrightarrow> cell_code c4 j =
         (if j = ?h2 \<or> j = ?h1 then ?dc else cell_code c1 j)" and
    step: "snake_step ctx rs =
        (if cell_code c1 ?h2 \<noteq> SNAKE_CELL_NOTHING \<and> cell_code c1 ?h2 \<noteq> SNAKE_CELL_FOOD
         then snake_initialize ctx rs
         else if cell_code c1 ?h2 = SNAKE_CELL_FOOD then
           (if are_cells_full ctx then snake_initialize ctx rs
            else case new_food_pos c4 rs of
                   Inl e \<Rightarrow> Inl e
                 | Inr (c5, rs') \<Rightarrow>
                     Inr ((c5\<lparr>inhibit_tail_step := inhibit_tail_step c5 + 1,
                              occupied_cells := occupied_cells c5 + 1\<rparr>), rs'))
         else Inr (c4, rs))"
    by auto
  note f4 = frame_cells [OF fr4]
  from g2 have gh2: "in_grid (head_xpos (step_head c1)) (head_ypos (step_head c1))"
    by (simp add: grid_ok_def)
  from ok have gh1: "in_grid (head_xpos ctx) (head_ypos ctx)" by (simp add: grid_ok_def)
  have h2: "?h2 < SNAKE_MATRIX_SIZE" using in_grid_index(1) [OF gh2] .
  have h1: "?h1 < SNAKE_MATRIX_SIZE" using in_grid_index(1) [OF gh1] .
  from nr f have ct: "cell_code c1 ?h2 = SNAKE_CELL_NOTHING \<or>
      (cell_code c1 ?h2 = SNAKE_CELL_FOOD \<and> \<not> are_cells_full ctx)"
    by (auto simp add: step_resets_def)
  then have nb: "\<not> is_body (cell_code c1 ?h2)"
    using not_body by auto
  have body4: "{j. j < SNAKE_MATRIX_SIZE \<and> is_body (cell_code c4 j)} =
      insert ?h2 (insert ?h1 {j. j < SNAKE_MATRIX_SIZE \<and> is_body (cell_code c1 j)})"
    using h1 h2 by (auto simp add: code4 dir_cell_body)
  have head4: "is_body (cell_code c4 ?h2)"
    using h2 by (simp add: code4 dir_cell_body)
  show ?thesis
  proof (cases "cell_code c1 ?h2 = SNAKE_CELL_FOOD")
    case False
    with ct res step have c': "ctx' = c4" by (auto simp add: cell_names)
    from False f have "found_at_head ctx \<noteq> Inr SNAKE_CELL_FOOD" by simp
    with c' f4 body4 head4 nb show ?thesis
      by (simp add: step_head_frame code4)
  next
    case True
    with ct res step obtain c5 where
      nf: "new_food_pos c4 rs = Inr (c5, rs')" and
      c': "ctx' = c5\<lparr>inhibit_tail_step := inhibit_tail_step c5 + 1,
                     occupied_cells := occupied_cells c5 + 1\<rparr>"
      by (auto simp add: cell_names split: sum.splits)
    from new_food_pos_spec [OF ok4 nf] obtain x y where
      g: "in_grid x y" and empty: "cell_code c4 (cell_index x y) = SNAKE_CELL_NOTHING" and
      fr5: "c5 = c4\<lparr>cells := cells c5\<rparr>" and
      code5: "\<And>j. j < SNAKE_MATRIX_SIZE \<Longrightarrow> cell_code c5 j =
              (if j = cell_index x y then SNAKE_CELL_FOOD else cell_code c4 j)"
      by blast
    note f5 = frame_cells [OF fr5]
    have cc: "cell_code ctx' = cell_code c5"
      by (rule cell_code_cong) (simp_all add: c')
    have body5: "{j. j < SNAKE_MATRIX_SIZE \<and> is_body (cell_code c5 j)} =
        {j. j < SNAKE_MATRIX_SIZE \<and> is_body (cell_code c4 j)}"
      using empty not_body by (auto simp add: code5 split: if_splits)
    from head4 empty not_body have "cell_index x y \<noteq> ?h2" by auto
    with h2 head4 have head5: "is_body (cell_code c5 ?h2)" by (simp add: code5)
    have rest: "\<forall>j<SNAKE_MATRIX_SIZE. j \<noteq> ?h2 \<and> j \<noteq> ?h1 \<and> cell_code c5 j \<noteq> SNAKE_CELL_FOOD \<longrightarrow>
        cell_code c5 j = cell_code c1 j"
      by (auto simp add: code5 code4 split: if_splits)
    from True f have "found_at_head ctx = Inr SNAKE_CELL_FOOD" by simp
    with c' f5 f4 body5 body4 head5 nb cc rest show ?thesis
      by (simp add: step_head_frame)
  qed
qed

lemma returned:
  "(case s of Inl e \<Rightarrow> False | Inr (c, r) \<Rightarrow> Q c r) \<Longrightarrow> \<exists>c r. s = Inr (c, r) \<and> Q c r"
  by (cases s) auto





text \<open>
  Claim C8: the growth-inhibit counter is at least 1 after \<^verbatim>\<open>snake_initialize\<close>, and
  \<^verbatim>\<open>snake_redir\<close> and \<^verbatim>\<open>snake_step\<close> keep it so. The tail block of a step decrements it
  once; when that gives 0 the counter is set back to 1, the tail cell is cleared and the
  tail moves by the step of the cell it stood on; otherwise tail and cells stay. A step
  that does not end in a reset returns the tail where its tail block put it, the counter
  that the tail block left (one more when food was eaten), and every cell other than the
  old head, the new head and the food cells as the tail block left it. A step that ends in
  a reset returns the state of \<^verbatim>\<open>snake_initialize\<close>: the counter is 4 and the tail is at
  \<open>(12, 9)\<close>, wherever the tail block had left it.
\<close>

theorem growth_inhibit_invariant:
  "(\<forall>ctx' rs'. snake_initialize ctx rs = Inr (ctx', rs') \<longrightarrow> 1 \<le> sint (inhibit_tail_step ctx')) \<and>
   (\<forall>ctx'. snake_redir ctx d = Inr ctx' \<longrightarrow> inhibit_tail_step ctx' = inhibit_tail_step ctx) \<and>
   (grid_ok ctx \<and> 1 \<le> sint (inhibit_tail_step ctx) \<longrightarrow>
      (\<exists>c ct. step_tail ctx = Inr c \<and>
         snake_cell_at ctx (tail_xpos ctx) (tail_ypos ctx) = Inr ct \<and>
         inhibit_tail_step c =
           (if inhibit_tail_step ctx - 1 = 0 then 1 else inhibit_tail_step ctx - 1) \<and>
         1 \<le> sint (inhibit_tail_step c) \<and>
         (if inhibit_tail_step ctx - 1 = 0 then
            snake_cell_at c (tail_xpos ctx) (tail_ypos ctx) = Inr SNAKE_CELL_NOTHING \<and>
            sint (tail_xpos c) = (sint (tail_xpos ctx) + cell_dx ct) mod int SNAKE_GAME_WIDTH \<and>
            sint (tail_ypos c) = (sint (tail_ypos ctx) + cell_dy ct) mod int SNAKE_GAME_HEIGHT
          else tail_xpos c = tail_xpos ctx \<and> tail_ypos c = tail_ypos ctx \<and> cells c = cells ctx) \<and>
         (\<forall>ctx' rs'. snake_step ctx rs = Inr (ctx', rs') \<longrightarrow>
            1 \<le> sint (inhibit_tail_step ctx') \<and>
            (if step_resets ctx then
               snake_initialize ctx rs = Inr (ctx', rs') \<and> inhibit_tail_step ctx' = 4 \<and>
               tail_xpos ctx' = 12 \<and> tail_ypos ctx' = 9
             else
               tail_xpos ctx' = tail_xpos c \<and> tail_ypos ctx' = tail_ypos c \<and>
               inhibit_tail_step ctx' =
                 (if found_at_head ctx = Inr SNAKE_CELL_FOOD then inhibit_tail_step c + 1
                  else inhibit_tail_step c) \<and>
               (\<forall>x y. in_grid x y \<and> (x, y) \<noteq> (head_xpos ctx', head_ypos ctx') \<and>
                  (x, y) \<noteq> (head_xpos ctx, head_ypos ctx) \<and>
                  snake_cell_at ctx' x y \<noteq> Inr SNAKE_CELL_FOOD \<longrightarrow>
                  snake_cell_at ctx' x y = snake_cell_at c x y)))))"
proof (intro conjI impI allI)
  fix ctx' rs'
  assume "snake_initialize ctx rs = Inr (ctx', rs')"
  from snake_initialize_spec [OF this] have "inhibit_tail_step ctx' = 4" by blast
  then show "1 \<le> sint (inhibit_tail_step ctx')" by simp
next
  fix ctx'
  assume "snake_redir ctx d = Inr ctx'"
  from snake_redir_frame [OF this]
  show "inhibit_tail_step ctx' = inhibit_tail_step ctx" by auto
next
  assume a: "grid_ok ctx \<and> 1 \<le> sint (inhibit_tail_step ctx)"
  then have ok: "grid_ok ctx" and pos: "1 \<le> sint (inhibit_tail_step ctx)" by simp_all
  from step_tail_read [OF ok] obtain c ct where
    st: "step_tail ctx = Inr c" and
    c: "snake_cell_at ctx (tail_xpos ctx) (tail_ypos ctx) = Inr ct"
      "inhibit_tail_step c = (if inhibit_tail_step ctx - 1 = 0 then 1 else inhibit_tail_step ctx - 1)"
      "if inhibit_tail_step ctx - 1 = 0 then
         snake_cell_at c (tail_xpos ctx) (tail_ypos ctx) = Inr SNAKE_CELL_NOTHING \<and>
         sint (tail_xpos c) = (sint (tail_xpos ctx) + cell_dx ct) mod int SNAKE_GAME_WIDTH \<and>
         sint (tail_ypos c) = (sint (tail_ypos ctx) + cell_dy ct) mod int SNAKE_GAME_HEIGHT
       else tail_xpos c = tail_xpos ctx \<and> tail_ypos c = tail_ypos ctx \<and> cells c = cells ctx"
    by blast
  from counter_after_tail(1) [OF pos] c(2)
  have p1: "1 \<le> sint (inhibit_tail_step c)" by simp
  have stp: "1 \<le> sint (inhibit_tail_step ctx') \<and>
            (if step_resets ctx then
               snake_initialize ctx rs = Inr (ctx', rs') \<and> inhibit_tail_step ctx' = 4 \<and>
               tail_xpos ctx' = 12 \<and> tail_ypos ctx' = 9
             else
               tail_xpos ctx' = tail_xpos c \<and> tail_ypos ctx' = tail_ypos c \<and>
               inhibit_tail_step ctx' =
                 (if found_at_head ctx = Inr SNAKE_CELL_FOOD then inhibit_tail_step c + 1
                  else inhibit_tail_step c) \<and>
               (\<forall>x y. in_grid x y \<and> (x, y) \<noteq> (head_xpos ctx', head_ypos ctx') \<and>
                  (x, y) \<noteq> (head_xpos ctx, head_ypos ctx) \<and>
                  snake_cell_at ctx' x y \<noteq> Inr SNAKE_CELL_FOOD \<longrightarrow>
                  snake_cell_at ctx' x y = snake_cell_at c x y))"
    if res: "snake_step ctx rs = Inr (ctx', rs')" for ctx' rs'
  proof -
    have p: "1 \<le> sint (inhibit_tail_step ctx')"
      by (rule snake_step_counter [OF ok pos res])
    show ?thesis
    proof (cases "step_resets ctx")
      case True
      from snake_step_reset [OF ok True, of rs] res
      have ini: "snake_initialize ctx rs = Inr (ctx', rs')" by simp
      from snake_initialize_spec [OF ini] have
        "inhibit_tail_step ctx' = 4" "tail_xpos ctx' = 12" "tail_ypos ctx' = 9"
        by blast+
      with p ini True show ?thesis by simp
    next
      case False
      note nr = snake_step_no_reset [OF ok False res st]
      from nr have
        t: "tail_xpos ctx' = tail_xpos c" "tail_ypos ctx' = tail_ypos c" and
        h: "head_xpos ctx' = head_xpos (step_head c)" "head_ypos ctx' = head_ypos (step_head c)" and
        i: "inhibit_tail_step ctx' =
             (if found_at_head ctx = Inr SNAKE_CELL_FOOD then inhibit_tail_step c + 1
              else inhibit_tail_step c)" and
        rest: "\<forall>j<SNAKE_MATRIX_SIZE.
            j \<noteq> cell_index (head_xpos (step_head c)) (head_ypos (step_head c)) \<and>
            j \<noteq> cell_index (head_xpos ctx) (head_ypos ctx) \<and>
            cell_code ctx' j \<noteq> SNAKE_CELL_FOOD \<longrightarrow>
            cell_code ctx' j = cell_code c j"
        by blast+
      from snake_step_grid_ok [OF ok res] have gh': "in_grid (head_xpos ctx') (head_ypos ctx')"
        by (simp add: grid_ok_def)
      from ok have gh: "in_grid (head_xpos ctx) (head_ypos ctx)" by (simp add: grid_ok_def)
      have cellsq: "snake_cell_at ctx' x y = snake_cell_at c x y"
        if g: "in_grid x y" and n1: "(x, y) \<noteq> (head_xpos ctx', head_ypos ctx')"
          and n2: "(x, y) \<noteq> (head_xpos ctx, head_ypos ctx)"
          and nf: "snake_cell_at ctx' x y \<noteq> Inr SNAKE_CELL_FOOD" for x y
      proof -
        from g gh' n1 have "cell_index x y \<noteq> cell_index (head_xpos ctx') (head_ypos ctx')"
          using cell_index_inj by blast
        moreover from g gh n2 have "cell_index x y \<noteq> cell_index (head_xpos ctx) (head_ypos ctx)"
          using cell_index_inj by blast
        moreover from nf have "cell_code ctx' (cell_index x y) \<noteq> SNAKE_CELL_FOOD"
          by (simp add: snake_cell_at_code [OF g])
        ultimately have "cell_code ctx' (cell_index x y) = cell_code c (cell_index x y)"
          using rest in_grid_index(1) [OF g] by (simp add: h)
        then show ?thesis by (simp add: snake_cell_at_code [OF g])
      qed
      from p False t i cellsq show ?thesis by simp
    qed
  qed
  from st c p1 stp
  show "\<exists>c ct. step_tail ctx = Inr c \<and>
         snake_cell_at ctx (tail_xpos ctx) (tail_ypos ctx) = Inr ct \<and>
         inhibit_tail_step c =
           (if inhibit_tail_step ctx - 1 = 0 then 1 else inhibit_tail_step ctx - 1) \<and>
         1 \<le> sint (inhibit_tail_step c) \<and>
         (if inhibit_tail_step ctx - 1 = 0 then
            snake_cell_at c (tail_xpos ctx) (tail_ypos ctx) = Inr SNAKE_CELL_NOTHING \<and>
            sint (tail_xpos c) = (sint (tail_xpos ctx) + cell_dx ct) mod int SNAKE_GAME_WIDTH \<and>
            sint (tail_ypos c) = (sint (tail_ypos ctx) + cell_dy ct) mod int SNAKE_GAME_HEIGHT
          else tail_xpos c = tail_xpos ctx \<and> tail_ypos c = tail_ypos ctx \<and> cells c = cells ctx) \<and>
         (\<forall>ctx' rs'. snake_step ctx rs = Inr (ctx', rs') \<longrightarrow>
            1 \<le> sint (inhibit_tail_step ctx') \<and>
            (if step_resets ctx then
               snake_initialize ctx rs = Inr (ctx', rs') \<and> inhibit_tail_step ctx' = 4 \<and>
               tail_xpos ctx' = 12 \<and> tail_ypos ctx' = 9
             else
               tail_xpos ctx' = tail_xpos c \<and> tail_ypos ctx' = tail_ypos c \<and>
               inhibit_tail_step ctx' =
                 (if found_at_head ctx = Inr SNAKE_CELL_FOOD then inhibit_tail_step c + 1
                  else inhibit_tail_step c) \<and>
               (\<forall>x y. in_grid x y \<and> (x, y) \<noteq> (head_xpos ctx', head_ypos ctx') \<and>
                  (x, y) \<noteq> (head_xpos ctx, head_ypos ctx) \<and>
                  snake_cell_at ctx' x y \<noteq> Inr SNAKE_CELL_FOOD \<longrightarrow>
                  snake_cell_at ctx' x y = snake_cell_at c x y)))"
    by blast
qed

text \<open>
  A step at the edges whose decrement gives 0: the tail moves from \<open>(0, 17)\<close> to
  \<open>(23, 17)\<close>, and the step returns it there with the cell at \<open>(0, 17)\<close> cleared. And a step
  that ends in a reset.
\<close>

theorem growth_inhibit_invariant_witness:
  "grid_ok edge_context \<and> 1 \<le> sint (inhibit_tail_step edge_context) \<and>
   \<not> step_resets edge_context \<and>
   (\<exists>c. step_tail edge_context = Inr c \<and> inhibit_tail_step c = 1 \<and>
      sint (tail_xpos c) = 23 \<and> sint (tail_ypos c) = 17) \<and>
   (\<exists>c. snake_step edge_context [] = Inr (c, []) \<and> inhibit_tail_step c = 1 \<and>
      sint (tail_xpos c) = 23 \<and> sint (tail_ypos c) = 17 \<and>
      snake_cell_at c 0 17 = Inr SNAKE_CELL_NOTHING) \<and>
   (\<exists>c. snake_redir edge_context SNAKE_DIR_UP = Inr c \<and> inhibit_tail_step c = 1) \<and>
   (\<exists>c. snake_initialize edge_context [0, 0, 1, 0, 2, 0, 3, 0] = Inr (c, []) \<and>
      1 \<le> sint (inhibit_tail_step c)) \<and>
   grid_ok collision_context \<and> 1 \<le> sint (inhibit_tail_step collision_context) \<and>
   step_resets collision_context \<and>
   (\<exists>c. snake_step collision_context [0, 0, 1, 0, 2, 0, 3, 0] = Inr (c, []) \<and>
      inhibit_tail_step c = 4 \<and> tail_xpos c = 12 \<and> tail_ypos c = 9)"
proof -
  have ok: "grid_ok edge_context"
    by code_simp
  have pos: "1 \<le> sint (inhibit_tail_step edge_context)"
    by (simp add: edge_context_def)
  have nr: "\<not> step_resets edge_context"
    by code_simp
  have nf: "found_at_head edge_context = Inr SNAKE_CELL_NOTHING"
    by code_simp
  note inv = growth_inhibit_invariant [of edge_context "[]" SNAKE_DIR_UP]
  note inv' = growth_inhibit_invariant [of edge_context "[0, 0, 1, 0, 2, 0, 3, 0]" SNAKE_DIR_UP]
  have tl: "snake_cell_at edge_context (tail_xpos edge_context) (tail_ypos edge_context)
      = Inr SNAKE_CELL_SLEFT"
    by code_simp
  from inv ok pos tl obtain c where
    st: "step_tail edge_context = Inr c" and
    i: "inhibit_tail_step c =
       (if inhibit_tail_step edge_context - 1 = 0 then 1 else inhibit_tail_step edge_context - 1)" and
    tb: "if inhibit_tail_step edge_context - 1 = 0 then
        snake_cell_at c (tail_xpos edge_context) (tail_ypos edge_context) = Inr SNAKE_CELL_NOTHING \<and>
        sint (tail_xpos c) = (sint (tail_xpos edge_context) + cell_dx SNAKE_CELL_SLEFT) mod int SNAKE_GAME_WIDTH \<and>
        sint (tail_ypos c) = (sint (tail_ypos edge_context) + cell_dy SNAKE_CELL_SLEFT) mod int SNAKE_GAME_HEIGHT
      else tail_xpos c = tail_xpos edge_context \<and> tail_ypos c = tail_ypos edge_context \<and>
        cells c = cells edge_context" and
    stp: "\<forall>ctx' rs'. snake_step edge_context [] = Inr (ctx', rs') \<longrightarrow>
            1 \<le> sint (inhibit_tail_step ctx') \<and>
            (if step_resets edge_context then
               snake_initialize edge_context [] = Inr (ctx', rs') \<and> inhibit_tail_step ctx' = 4 \<and>
               tail_xpos ctx' = 12 \<and> tail_ypos ctx' = 9
             else
               tail_xpos ctx' = tail_xpos c \<and> tail_ypos ctx' = tail_ypos c \<and>
               inhibit_tail_step ctx' =
                 (if found_at_head edge_context = Inr SNAKE_CELL_FOOD then inhibit_tail_step c + 1
                  else inhibit_tail_step c))"
    by auto
  from i tb have c: "inhibit_tail_step c = 1" "sint (tail_xpos c) = 23" "sint (tail_ypos c) = 17"
    by (auto simp add: edge_context_def cell_dx_def cell_dy_def cell_names grid_consts)
  with st have a: "\<exists>c. step_tail edge_context = Inr c \<and> inhibit_tail_step c = 1 \<and>
      sint (tail_xpos c) = 23 \<and> sint (tail_ypos c) = 17"
    by blast
  have "case snake_step edge_context [] of
      Inl e \<Rightarrow> False | Inr (c, r) \<Rightarrow> r = [] \<and> snake_cell_at c 0 17 = Inr SNAKE_CELL_NOTHING"
    by code_simp
  from returned [OF this] obtain c1 where run: "snake_step edge_context [] = Inr (c1, [])"
    and cl: "snake_cell_at c1 0 17 = Inr SNAKE_CELL_NOTHING"
    by blast
  from stp run nr nf have "tail_xpos c1 = tail_xpos c \<and> tail_ypos c1 = tail_ypos c \<and>
      inhibit_tail_step c1 = inhibit_tail_step c"
    by (simp add: cell_names)
  with c run cl have b: "\<exists>c. snake_step edge_context [] = Inr (c, []) \<and> inhibit_tail_step c = 1 \<and>
      sint (tail_xpos c) = 23 \<and> sint (tail_ypos c) = 17 \<and>
      snake_cell_at c 0 17 = Inr SNAKE_CELL_NOTHING"
    by simp
  have "case snake_redir edge_context SNAKE_DIR_UP of Inl e \<Rightarrow> False | Inr c \<Rightarrow> True"
    by code_simp
  then obtain c2 where "snake_redir edge_context SNAKE_DIR_UP = Inr c2"
    by (auto split: sum.splits)
  with inv have r: "\<exists>c. snake_redir edge_context SNAKE_DIR_UP = Inr c \<and> inhibit_tail_step c = 1"
    by (auto simp add: edge_context_def)
  have "case snake_initialize edge_context [0, 0, 1, 0, 2, 0, 3, 0] of
      Inl e \<Rightarrow> False | Inr (c, r) \<Rightarrow> r = []"
    by code_simp
  from returned [OF this] obtain c3 where
    "snake_initialize edge_context [0, 0, 1, 0, 2, 0, 3, 0] = Inr (c3, [])"
    by blast
  with inv' have d: "\<exists>c. snake_initialize edge_context [0, 0, 1, 0, 2, 0, 3, 0] = Inr (c, []) \<and>
      1 \<le> sint (inhibit_tail_step c)"
    by blast
  have ok2: "grid_ok collision_context"
    by code_simp
  have pos2: "1 \<le> sint (inhibit_tail_step collision_context)"
    by (simp add: collision_context_def)
  have rs: "step_resets collision_context"
    by code_simp
  have "case snake_step collision_context [0, 0, 1, 0, 2, 0, 3, 0] of
      Inl e \<Rightarrow> False | Inr (c, r) \<Rightarrow> r = []"
    by code_simp
  from returned [OF this] obtain c4 where
    run2: "snake_step collision_context [0, 0, 1, 0, 2, 0, 3, 0] = Inr (c4, [])"
    by blast
  from growth_inhibit_invariant [of collision_context "[0, 0, 1, 0, 2, 0, 3, 0]" SNAKE_DIR_UP]
    ok2 pos2 rs run2
  have "inhibit_tail_step c4 = 4 \<and> tail_xpos c4 = 12 \<and> tail_ypos c4 = 9"
    by auto
  with run2 have e: "\<exists>c. snake_step collision_context [0, 0, 1, 0, 2, 0, 3, 0] = Inr (c, []) \<and>
      inhibit_tail_step c = 4 \<and> tail_xpos c = 12 \<and> tail_ypos c = 9"
    by blast
  from ok pos nr a b r d ok2 pos2 rs e show ?thesis by blast
qed

text \<open>
  The tail does not stay in every step whose decrement leaves the counter above 0. After
  three steps to the right, one down and one to the left onto food at \<open>(14, 10)\<close>, the head
  turns up towards the tail at \<open>(14, 9)\<close> while the counter is 2. The step holds the tail,
  finds a body cell under the new head and resets, which puts the tail at \<open>(12, 9)\<close>.
\<close>

theorem tail_moves_on_reset:
  "\<exists>c r c' r'.
     snake_play blank_context [14, 10, 0, 0, 1, 0, 2, 0, 5, 5, 0, 0, 1, 0, 2, 0, 3, 0]
       [Restart, Tick, Tick, Tick, Turn SNAKE_DIR_DOWN, Tick, Turn SNAKE_DIR_LEFT, Tick,
        Turn SNAKE_DIR_UP] = Inr (c, r) \<and>
     inhibit_tail_step c = 2 \<and> inhibit_tail_step c - 1 \<noteq> 0 \<and>
     tail_xpos c = 14 \<and> tail_ypos c = 9 \<and>
     snake_step c r = Inr (c', r') \<and>
     tail_xpos c' = 12 \<and> tail_ypos c' = 9 \<and> tail_xpos c' \<noteq> tail_xpos c"
proof -
  have "case snake_play blank_context [14, 10, 0, 0, 1, 0, 2, 0, 5, 5, 0, 0, 1, 0, 2, 0, 3, 0]
       [Restart, Tick, Tick, Tick, Turn SNAKE_DIR_DOWN, Tick, Turn SNAKE_DIR_LEFT, Tick,
        Turn SNAKE_DIR_UP] of
      Inl e \<Rightarrow> False
    | Inr (c, r) \<Rightarrow>
        inhibit_tail_step c = 2 \<and> inhibit_tail_step c - 1 \<noteq> 0 \<and>
        tail_xpos c = 14 \<and> tail_ypos c = 9 \<and>
        (case snake_step c r of
           Inl e \<Rightarrow> False
         | Inr (c', r') \<Rightarrow> tail_xpos c' = 12 \<and> tail_ypos c' = 9 \<and> tail_xpos c' \<noteq> tail_xpos c)"
    by code_simp
  from returned [OF this] obtain c r where
    run: "snake_play blank_context [14, 10, 0, 0, 1, 0, 2, 0, 5, 5, 0, 0, 1, 0, 2, 0, 3, 0]
       [Restart, Tick, Tick, Tick, Turn SNAKE_DIR_DOWN, Tick, Turn SNAKE_DIR_LEFT, Tick,
        Turn SNAKE_DIR_UP] = Inr (c, r)" and
    c: "inhibit_tail_step c = 2" "inhibit_tail_step c - 1 \<noteq> 0" "tail_xpos c = 14" "tail_ypos c = 9" and
    nxt: "case snake_step c r of
           Inl e \<Rightarrow> False
         | Inr (c', r') \<Rightarrow> tail_xpos c' = 12 \<and> tail_ypos c' = 9 \<and> tail_xpos c' \<noteq> tail_xpos c"
    by blast
  from returned [OF nxt] obtain c' r' where
    "snake_step c r = Inr (c', r')" "tail_xpos c' = 12" "tail_ypos c' = 9"
    "tail_xpos c' \<noteq> tail_xpos c"
    by blast
  with run c show ?thesis by blast
qed

subsection \<open>Turning\<close>

lemma memcpy_from_cells_next_dir:
  "memcpy_from_cells (ctx\<lparr>next_dir := p\<rparr>) off = memcpy_from_cells ctx off"
  by (simp add: memcpy_from_cells_def)

lemma snake_cell_at_next_dir:
  "snake_cell_at (ctx\<lparr>next_dir := p\<rparr>) x y = snake_cell_at ctx x y"
  unfolding snake_cell_at_def memcpy_from_cells_next_dir ..

lemma snake_redir_spec:
  assumes "snake_cell_at ctx (head_xpos ctx) (head_ypos ctx) = Inr ct"
  shows "snake_redir ctx d = Inr (if ct = opposite_cell d then ctx else ctx\<lparr>next_dir := d\<rparr>)"
  using assms by (cases d) (simp_all add: snake_redir_def)

lemma snake_redirs_spec:
  assumes "snake_cell_at ctx (head_xpos ctx) (head_ypos ctx) = Inr ct"
  shows "snake_redirs ctx ds =
    Inr (ctx\<lparr>next_dir := last (next_dir ctx # filter (\<lambda>d. ct \<noteq> opposite_cell d) ds)\<rparr>)"
  using assms
proof (induction ds arbitrary: ctx)
  case Nil
  then show ?case by simp
next
  case (Cons d ds)
  show ?case
  proof (cases "ct = opposite_cell d")
    case True
    with Cons.IH [OF Cons.prems] snake_redir_spec [OF Cons.prems, of d] show ?thesis
      by simp
  next
    case False
    from Cons.prems have "snake_cell_at (ctx\<lparr>next_dir := d\<rparr>)
        (head_xpos (ctx\<lparr>next_dir := d\<rparr>)) (head_ypos (ctx\<lparr>next_dir := d\<rparr>)) = Inr ct"
      by (simp add: snake_cell_at_next_dir)
    from Cons.IH [OF this] False snake_redir_spec [OF Cons.prems, of d] show ?thesis
      by simp
  qed
qed


lemma first_step_after_initialize:
  assumes init: "snake_initialize ctx rs = Inr (ctx1, rs1)"
  shows "(\<forall>ctx2 rs2. snake_step ctx1 rs1 = Inr (ctx2, rs2) \<longrightarrow> head_xpos ctx2 = 13 \<and> head_ypos ctx2 = 9) \<and>
         (\<exists>ext ctx2 rs2. snake_step ctx1 (rs1 @ ext) = Inr (ctx2, rs2))"
proof -
  from snake_initialize_spec [OF init] obtain S where
    fields: "head_xpos ctx1 = 12" "head_ypos ctx1 = 9" "next_dir ctx1 = SNAKE_DIR_RIGHT"
      "inhibit_tail_step ctx1 = 4" "occupied_cells ctx1 = 7" and
    sub: "S \<subseteq> {j. j < SNAKE_MATRIX_SIZE}" and card: "card S = 4" and
    code: "\<And>j. j < SNAKE_MATRIX_SIZE \<Longrightarrow> cell_code ctx1 j =
               (if j \<in> S then SNAKE_CELL_FOOD
                else if j = 228 then SNAKE_CELL_SRIGHT else SNAKE_CELL_NOTHING)"
    by blast
  have ok: "grid_ok ctx1" using init by (rule snake_initialize_grid_ok)
  have hold: "step_tail ctx1 = Inr (ctx1\<lparr>inhibit_tail_step := 3\<rparr>)"
    using step_tail_hold [of ctx1] by (simp add: fields)
  let ?c1 = "ctx1\<lparr>inhibit_tail_step := 3\<rparr>"
  have hx: "head_xpos (step_head ?c1) = 13" and hy: "head_ypos (step_head ?c1) = 9"
    by (simp_all add: step_head_def Let_def fields wrap_around_def grid_consts)
  have idx: "cell_index 13 9 = 229" "cell_index 12 9 = 228" "(229 :: nat) < SNAKE_MATRIX_SIZE"
    by (simp_all add: cell_index_def grid_consts)
  have cc1: "cell_code ?c1 = cell_code ctx1" by (rule cell_code_cong) simp_all
  have nfull: "\<not> are_cells_full ctx1"
    by (simp add: are_cells_full_def fields grid_consts)
  from snake_step_spec [OF ok, of rs1] hold obtain c4 where
    ok4: "cells_ok c4" and fr4: "c4 = (step_head ?c1)\<lparr>cells := cells c4\<rparr>" and
    sbf: "step_before_food ctx1 = Inr c4" and
    code4: "\<And>j. j < SNAKE_MATRIX_SIZE \<Longrightarrow> cell_code c4 j =
         (if j = 229 \<or> j = 228 then dir_value (next_dir ctx1) + 1 else cell_code ctx1 j)"
    by (auto simp add: hx hy idx fields cc1)
  have step: "snake_step ctx1 rs0 =
      (if 229 \<in> S then
         (case new_food_pos c4 rs0 of
            Inl e \<Rightarrow> Inl e
          | Inr (c5, rs') \<Rightarrow>
              Inr ((c5\<lparr>inhibit_tail_step := inhibit_tail_step c5 + 1,
                       occupied_cells := occupied_cells c5 + 1\<rparr>), rs'))
       else Inr (c4, rs0))" for rs0
  proof -
    from snake_step_spec [OF ok, of rs0] obtain d1 d4 where
      "step_tail ctx1 = Inr d1" and "step_before_food ctx1 = Inr d4" and
      "snake_step ctx1 rs0 =
        (if cell_code d1 (cell_index (head_xpos (step_head d1)) (head_ypos (step_head d1))) \<noteq> SNAKE_CELL_NOTHING \<and>
            cell_code d1 (cell_index (head_xpos (step_head d1)) (head_ypos (step_head d1))) \<noteq> SNAKE_CELL_FOOD
         then snake_initialize ctx1 rs0
         else if cell_code d1 (cell_index (head_xpos (step_head d1)) (head_ypos (step_head d1))) = SNAKE_CELL_FOOD then
           (if are_cells_full ctx1 then snake_initialize ctx1 rs0
            else case new_food_pos d4 rs0 of
                   Inl e \<Rightarrow> Inl e
                 | Inr (c5, rs') \<Rightarrow>
                     Inr ((c5\<lparr>inhibit_tail_step := inhibit_tail_step c5 + 1,
                              occupied_cells := occupied_cells c5 + 1\<rparr>), rs'))
         else Inr (d4, rs0))"
      by blast
    with hold sbf nfull show ?thesis
      by (simp add: hx hy idx cc1 code cell_names)
  qed
  note f4 = frame_cells [OF fr4]
  have head: "head_xpos ctx2 = 13 \<and> head_ypos ctx2 = 9"
    if res: "snake_step ctx1 rs1 = Inr (ctx2, rs2)" for ctx2 rs2
  proof (cases "229 \<in> S")
    case True
    with res step [of rs1] obtain c5 where
      nf: "new_food_pos c4 rs1 = Inr (c5, rs2)" and
      c2: "ctx2 = c5\<lparr>inhibit_tail_step := inhibit_tail_step c5 + 1,
                     occupied_cells := occupied_cells c5 + 1\<rparr>"
      by (auto split: sum.splits)
    from new_food_pos_spec [OF ok4 nf] have "c5 = c4\<lparr>cells := cells c5\<rparr>" by blast
    from frame_cells(1,2) [OF this] show ?thesis
      by (simp add: c2 f4 hx hy)
  next
    case False
    with res step [of rs1] have "ctx2 = c4" by simp
    then show ?thesis by (simp add: f4 hx hy)
  qed
  have ret: "\<exists>ext ctx2 rs2. snake_step ctx1 (rs1 @ ext) = Inr (ctx2, rs2)"
  proof (cases "229 \<in> S")
    case False
    with step [of "rs1 @ []"] have "snake_step ctx1 (rs1 @ []) = Inr (c4, rs1 @ [])"
      by (simp only: if_False)
    then show ?thesis by blast
  next
    case True
    have "{j. j < SNAKE_MATRIX_SIZE \<and> cell_code c4 j \<noteq> SNAKE_CELL_NOTHING} \<subseteq> S \<union> {228, 229}"
      using code4 code by (auto simp add: cell_names split: if_splits)
    moreover have fin: "finite S" using sub by (rule finite_subset) simp
    ultimately have "card {j. j < SNAKE_MATRIX_SIZE \<and> cell_code c4 j \<noteq> SNAKE_CELL_NOTHING}
        \<le> card (S \<union> {228, 229})"
      by (intro card_mono) simp_all
    also have "\<dots> \<le> card S + card {228 :: nat, 229}"
      by (rule card_Un_le)
    finally have "card {j. j < SNAKE_MATRIX_SIZE \<and> cell_code c4 j \<noteq> SNAKE_CELL_NOTHING}
        < SNAKE_MATRIX_SIZE"
      by (simp add: card grid_consts)
    from empty_cell_exists [OF this] obtain j where
      "j < SNAKE_MATRIX_SIZE" and "cell_code c4 j = SNAKE_CELL_NOTHING" by blast
    from new_food_pos_extend [OF ok4 this, of rs1] obtain ext c r where
      "new_food_pos c4 (rs1 @ ext) = Inr (c, r)" by blast
    with True step [of "rs1 @ ext"] show ?thesis
      by (intro exI [of _ ext]) simp
  qed
  from head ret show ?thesis by blast
qed

lemma head_cell_after_initialize:
  assumes init: "snake_initialize ctx rs = Inr (ctx1, rs1)"
  shows "snake_cell_at ctx1 (head_xpos ctx1) (head_ypos ctx1) = Inr SNAKE_CELL_SRIGHT"
    and "next_dir ctx1 = SNAKE_DIR_RIGHT"
proof -
  from snake_initialize_spec [OF init] obtain S where
    fields: "head_xpos ctx1 = 12" "head_ypos ctx1 = 9" "next_dir ctx1 = SNAKE_DIR_RIGHT" and
    free: "228 \<notin> S" and
    code: "\<And>j. j < SNAKE_MATRIX_SIZE \<Longrightarrow> cell_code ctx1 j =
               (if j \<in> S then SNAKE_CELL_FOOD
                else if j = 228 then SNAKE_CELL_SRIGHT else SNAKE_CELL_NOTHING)"
    by blast
  from free show "snake_cell_at ctx1 (head_xpos ctx1) (head_ypos ctx1) = Inr SNAKE_CELL_SRIGHT"
    by (simp add: fields snake_cell_at_code [OF centre(1)] centre(2) code grid_consts)
  show "next_dir ctx1 = SNAKE_DIR_RIGHT" by (fact fields)
qed

text \<open>
  Claim C4: \<^verbatim>\<open>snake_redir(d)\<close> leaves the pending direction as it is when \<open>d\<close> is the exact
  opposite of the direction of the body cell stored at the head position, and sets it to
  \<open>d\<close> otherwise; of a sequence of calls the last accepted one wins. After
  \<^verbatim>\<open>snake_initialize\<close>, any number of \<^verbatim>\<open>snake_redir(SNAKE_DIR_LEFT)\<close> leaves the context as it
  is, the pending direction right, and a step that returns has moved the head to
  \<open>(13, 9)\<close>; it returns as soon as the draws allow.
\<close>

theorem snake_redir_rejects_reversal:
  "(in_grid (head_xpos ctx) (head_ypos ctx) \<longrightarrow>
      (\<exists>ct. snake_cell_at ctx (head_xpos ctx) (head_ypos ctx) = Inr ct \<and>
         snake_redir ctx d = Inr (if ct = opposite_cell d then ctx else ctx\<lparr>next_dir := d\<rparr>) \<and>
         snake_redirs ctx ds =
           Inr (ctx\<lparr>next_dir := last (next_dir ctx # filter (\<lambda>d. ct \<noteq> opposite_cell d) ds)\<rparr>))) \<and>
   (\<forall>ctx1 rs1. snake_initialize ctx rs = Inr (ctx1, rs1) \<longrightarrow>
      snake_redirs ctx1 (replicate n SNAKE_DIR_LEFT) = Inr ctx1 \<and>
      next_dir ctx1 = SNAKE_DIR_RIGHT \<and>
      (\<forall>ctx2 rs2. snake_step ctx1 rs1 = Inr (ctx2, rs2) \<longrightarrow> head_xpos ctx2 = 13 \<and> head_ypos ctx2 = 9) \<and>
      (\<exists>ext ctx2 rs2. snake_step ctx1 (rs1 @ ext) = Inr (ctx2, rs2)))"
proof (intro conjI impI allI)
  assume g: "in_grid (head_xpos ctx) (head_ypos ctx)"
  let ?ct = "cell_code ctx (cell_index (head_xpos ctx) (head_ypos ctx))"
  have rd: "snake_cell_at ctx (head_xpos ctx) (head_ypos ctx) = Inr ?ct"
    by (rule snake_cell_at_code [OF g])
  from rd snake_redir_spec [OF rd, of d] snake_redirs_spec [OF rd, of ds]
  show "\<exists>ct. snake_cell_at ctx (head_xpos ctx) (head_ypos ctx) = Inr ct \<and>
         snake_redir ctx d = Inr (if ct = opposite_cell d then ctx else ctx\<lparr>next_dir := d\<rparr>) \<and>
         snake_redirs ctx ds =
           Inr (ctx\<lparr>next_dir := last (next_dir ctx # filter (\<lambda>d. ct \<noteq> opposite_cell d) ds)\<rparr>)"
    by blast
next
  fix ctx1 rs1
  assume init: "snake_initialize ctx rs = Inr (ctx1, rs1)"
  note h = head_cell_after_initialize [OF init]
  from snake_redirs_spec [OF h(1), of "replicate n SNAKE_DIR_LEFT"]
  have "snake_redirs ctx1 (replicate n SNAKE_DIR_LEFT) = Inr (ctx1\<lparr>next_dir := next_dir ctx1\<rparr>)"
    by simp
  then show "snake_redirs ctx1 (replicate n SNAKE_DIR_LEFT) = Inr ctx1"
    by simp
  show "next_dir ctx1 = SNAKE_DIR_RIGHT" by (fact h(2))
  from first_step_after_initialize [OF init]
  show "\<exists>ext ctx2 rs2. snake_step ctx1 (rs1 @ ext) = Inr (ctx2, rs2)"
    by blast
  fix ctx2 rs2
  assume "snake_step ctx1 rs1 = Inr (ctx2, rs2)"
  with first_step_after_initialize [OF init]
  show "head_xpos ctx2 = 13" and "head_ypos ctx2 = 9" by blast+
qed

theorem snake_redir_rejects_reversal_witness:
  "in_grid (head_xpos edge_context) (head_ypos edge_context) \<and>
   snake_redir edge_context SNAKE_DIR_LEFT = Inr edge_context \<and>
   snake_redir edge_context SNAKE_DIR_UP = Inr (edge_context\<lparr>next_dir := SNAKE_DIR_UP\<rparr>) \<and>
   (\<exists>c1 c2. snake_initialize blank_context [0, 0, 1, 0, 2, 0, 3, 0] = Inr (c1, []) \<and>
      snake_redirs c1 (replicate 3 SNAKE_DIR_LEFT) = Inr c1 \<and> next_dir c1 = SNAKE_DIR_RIGHT \<and>
      snake_step c1 [] = Inr (c2, []) \<and> head_xpos c2 = 13 \<and> head_ypos c2 = 9)"
proof -
  have g: "in_grid (head_xpos edge_context) (head_ypos edge_context)"
    by code_simp
  have rd: "snake_cell_at edge_context (head_xpos edge_context) (head_ypos edge_context)
      = Inr SNAKE_CELL_SRIGHT"
    by code_simp
  from snake_redir_rejects_reversal [of edge_context SNAKE_DIR_LEFT "[]"] g rd
  have a: "snake_redir edge_context SNAKE_DIR_LEFT = Inr edge_context"
    by auto
  from snake_redir_rejects_reversal [of edge_context SNAKE_DIR_UP "[]"] g rd
  have b: "snake_redir edge_context SNAKE_DIR_UP = Inr (edge_context\<lparr>next_dir := SNAKE_DIR_UP\<rparr>)"
    by (auto simp add: cell_names)
  have "case snake_initialize blank_context [0, 0, 1, 0, 2, 0, 3, 0] of
      Inl e \<Rightarrow> False
    | Inr (c, r) \<Rightarrow> r = [] \<and> (case snake_step c [] of Inl e \<Rightarrow> False | Inr (c2, r2) \<Rightarrow> r2 = [])"
    by code_simp
  then obtain c1 c2 where init: "snake_initialize blank_context [0, 0, 1, 0, 2, 0, 3, 0] = Inr (c1, [])"
    and step: "snake_step c1 [] = Inr (c2, [])"
    by (auto split: sum.splits)
  from snake_redir_rejects_reversal [of blank_context _ _ "[0, 0, 1, 0, 2, 0, 3, 0]" 3] init step
  have "snake_redirs c1 (replicate 3 SNAKE_DIR_LEFT) = Inr c1 \<and> next_dir c1 = SNAKE_DIR_RIGHT \<and>
      head_xpos c2 = 13 \<and> head_ypos c2 = 9"
    by blast
  with g a b init step show ?thesis by blast
qed

text \<open>
  Claim C10: whether \<^verbatim>\<open>snake_redir\<close> accepts a direction depends on the cell stored at the
  head position only, never on the pending direction. So right after
  \<^verbatim>\<open>snake_initialize\<close> (head cell \<^verbatim>\<open>SNAKE_CELL_SRIGHT\<close>) the calls \<^verbatim>\<open>snake_redir(SNAKE_DIR_UP)\<close>
  and then \<^verbatim>\<open>snake_redir(SNAKE_DIR_DOWN)\<close> are both accepted and leave the pending direction
  down, the opposite of what the first call had set.
\<close>

theorem snake_redir_ignores_pending:
  "(in_grid (head_xpos ctx) (head_ypos ctx) \<longrightarrow>
      (\<exists>ct. snake_cell_at ctx (head_xpos ctx) (head_ypos ctx) = Inr ct \<and>
         (\<forall>p. snake_redir (ctx\<lparr>next_dir := p\<rparr>) d =
            Inr (ctx\<lparr>next_dir := if ct = opposite_cell d then p else d\<rparr>)))) \<and>
   (\<forall>ctx1 rs1. snake_initialize ctx rs = Inr (ctx1, rs1) \<longrightarrow>
      snake_redir ctx1 SNAKE_DIR_UP = Inr (ctx1\<lparr>next_dir := SNAKE_DIR_UP\<rparr>) \<and>
      snake_redir (ctx1\<lparr>next_dir := SNAKE_DIR_UP\<rparr>) SNAKE_DIR_DOWN
        = Inr (ctx1\<lparr>next_dir := SNAKE_DIR_DOWN\<rparr>) \<and>
      snake_redirs ctx1 [SNAKE_DIR_UP, SNAKE_DIR_DOWN] = Inr (ctx1\<lparr>next_dir := SNAKE_DIR_DOWN\<rparr>))"
proof (intro conjI impI allI)
  assume g: "in_grid (head_xpos ctx) (head_ypos ctx)"
  let ?ct = "cell_code ctx (cell_index (head_xpos ctx) (head_ypos ctx))"
  have rd: "snake_cell_at ctx (head_xpos ctx) (head_ypos ctx) = Inr ?ct"
    by (rule snake_cell_at_code [OF g])
  have "snake_redir (ctx\<lparr>next_dir := p\<rparr>) d =
      Inr (ctx\<lparr>next_dir := if ?ct = opposite_cell d then p else d\<rparr>)" for p
  proof -
    from rd have "snake_cell_at (ctx\<lparr>next_dir := p\<rparr>) (head_xpos (ctx\<lparr>next_dir := p\<rparr>))
        (head_ypos (ctx\<lparr>next_dir := p\<rparr>)) = Inr ?ct"
      by (simp add: snake_cell_at_next_dir)
    from snake_redir_spec [OF this, of d] show ?thesis by simp
  qed
  with rd show "\<exists>ct. snake_cell_at ctx (head_xpos ctx) (head_ypos ctx) = Inr ct \<and>
         (\<forall>p. snake_redir (ctx\<lparr>next_dir := p\<rparr>) d =
            Inr (ctx\<lparr>next_dir := if ct = opposite_cell d then p else d\<rparr>))"
    by blast
next
  fix ctx1 rs1
  assume init: "snake_initialize ctx rs = Inr (ctx1, rs1)"
  note h = head_cell_after_initialize [OF init]
  from snake_redir_spec [OF h(1), of SNAKE_DIR_UP]
  show up: "snake_redir ctx1 SNAKE_DIR_UP = Inr (ctx1\<lparr>next_dir := SNAKE_DIR_UP\<rparr>)"
    by (simp add: cell_names)
  from h(1) have "snake_cell_at (ctx1\<lparr>next_dir := SNAKE_DIR_UP\<rparr>)
      (head_xpos (ctx1\<lparr>next_dir := SNAKE_DIR_UP\<rparr>)) (head_ypos (ctx1\<lparr>next_dir := SNAKE_DIR_UP\<rparr>))
      = Inr SNAKE_CELL_SRIGHT"
    by (simp add: snake_cell_at_next_dir)
  from snake_redir_spec [OF this, of SNAKE_DIR_DOWN]
  show down: "snake_redir (ctx1\<lparr>next_dir := SNAKE_DIR_UP\<rparr>) SNAKE_DIR_DOWN
        = Inr (ctx1\<lparr>next_dir := SNAKE_DIR_DOWN\<rparr>)"
    by (simp add: cell_names)
  from up down
  show "snake_redirs ctx1 [SNAKE_DIR_UP, SNAKE_DIR_DOWN] = Inr (ctx1\<lparr>next_dir := SNAKE_DIR_DOWN\<rparr>)"
    by simp
qed

theorem snake_redir_ignores_pending_witness:
  "\<exists>c1. snake_initialize blank_context [0, 0, 1, 0, 2, 0, 3, 0] = Inr (c1, []) \<and>
     snake_redir c1 SNAKE_DIR_UP = Inr (c1\<lparr>next_dir := SNAKE_DIR_UP\<rparr>) \<and>
     snake_redir (c1\<lparr>next_dir := SNAKE_DIR_UP\<rparr>) SNAKE_DIR_DOWN = Inr (c1\<lparr>next_dir := SNAKE_DIR_DOWN\<rparr>) \<and>
     snake_redirs c1 [SNAKE_DIR_UP, SNAKE_DIR_DOWN] = Inr (c1\<lparr>next_dir := SNAKE_DIR_DOWN\<rparr>)"
proof -
  have "case snake_initialize blank_context [0, 0, 1, 0, 2, 0, 3, 0] of
      Inl e \<Rightarrow> False | Inr (c, r) \<Rightarrow> r = []"
    by code_simp
  then obtain c1 where init: "snake_initialize blank_context [0, 0, 1, 0, 2, 0, 3, 0] = Inr (c1, [])"
    by (auto split: sum.splits)
  with snake_redir_ignores_pending [of blank_context _ "[0, 0, 1, 0, 2, 0, 3, 0]"]
  show ?thesis by blast
qed

subsection \<open>The frame driver\<close>

lemma unat_step_rate: "unat STEP_RATE_IN_MILLISECONDS = 125"
  by (simp add: STEP_RATE_IN_MILLISECONDS_def)

lemma due_steps_none:
  assumes "\<not> STEP_RATE_IN_MILLISECONDS \<le> now - last_step"
  shows "due_steps now last_step = 0"
  using assms by (simp add: due_steps_def word_le_nat_alt unat_step_rate)

lemma due_steps_some:
  assumes "STEP_RATE_IN_MILLISECONDS \<le> now - last_step"
  shows "due_steps now last_step = Suc (due_steps now (last_step + STEP_RATE_IN_MILLISECONDS))"
proof -
  have eq: "now - (last_step + STEP_RATE_IN_MILLISECONDS) = (now - last_step) - STEP_RATE_IN_MILLISECONDS"
    by simp
  from assms have le: "125 \<le> unat (now - last_step)"
    by (simp add: word_le_nat_alt unat_step_rate)
  from assms have "unat ((now - last_step) - STEP_RATE_IN_MILLISECONDS) = unat (now - last_step) - 125"
    by (simp add: unat_sub unat_step_rate)
  then have "due_steps now (last_step + STEP_RATE_IN_MILLISECONDS) = (unat (now - last_step) - 125) div 125"
    by (simp only: due_steps_def eq unat_step_rate)
  also from le have "Suc \<dots> = unat (now - last_step) div 125"
    by (simp add: le_div_geq)
  finally show ?thesis by (simp add: due_steps_def unat_step_rate)
qed

lemma catch_up_spec:
  "catch_up now ctx rs last_step =
     (case snake_steps (due_steps now last_step) ctx rs of
        Inl e \<Rightarrow> Inl e
      | Inr (ctx', rs') \<Rightarrow>
          Inr (ctx', rs', last_step + STEP_RATE_IN_MILLISECONDS * of_nat (due_steps now last_step)))"
proof (induction now ctx rs last_step rule: catch_up.induct)
  case (1 now ctx rs last_step)
  show ?case
  proof (cases "STEP_RATE_IN_MILLISECONDS \<le> now - last_step")
    case False
    then show ?thesis
      by (simp add: catch_up.simps [of now ctx rs last_step] due_steps_none)
  next
    case True
    note n = due_steps_some [OF True]
    show ?thesis
    proof (cases "snake_step ctx rs")
      case (Inl e)
      with True show ?thesis
        by (simp add: catch_up.simps [of now ctx rs last_step] n)
    next
      case (Inr p)
      obtain c' r' where p: "p = (c', r')" by (cases p)
      let ?m = "due_steps now (last_step + STEP_RATE_IN_MILLISECONDS)"
      from "1.IH" [OF True Inr [unfolded p] refl]
      have ih: "catch_up now c' r' (last_step + STEP_RATE_IN_MILLISECONDS) =
         (case snake_steps ?m c' r' of
            Inl e \<Rightarrow> Inl e
          | Inr (ctx', rs') \<Rightarrow>
              Inr (ctx', rs', last_step + STEP_RATE_IN_MILLISECONDS +
                 STEP_RATE_IN_MILLISECONDS * of_nat ?m))" .
      have lhs: "catch_up now ctx rs last_step
          = catch_up now c' r' (last_step + STEP_RATE_IN_MILLISECONDS)"
        using True Inr p by (simp add: catch_up.simps [of now ctx rs last_step])
      have rhs: "snake_steps (Suc ?m) ctx rs = snake_steps ?m c' r'"
        using Inr p by simp
      have arith: "last_step + STEP_RATE_IN_MILLISECONDS * of_nat (Suc ?m)
          = last_step + STEP_RATE_IN_MILLISECONDS + STEP_RATE_IN_MILLISECONDS * of_nat ?m"
        by (simp add: algebra_simps)
      show ?thesis
        by (simp only: lhs ih n rhs arith)
    qed
  qed
qed

lemma catch_up_remainder:
  "now - (last_step + STEP_RATE_IN_MILLISECONDS * of_nat (due_steps now last_step))
     = of_nat (unat (now - last_step) mod unat STEP_RATE_IN_MILLISECONDS)"
proof -
  let ?d = "now - last_step"
  have "(of_nat (125 * (unat ?d div 125) + unat ?d mod 125) :: Uint64) = of_nat (unat ?d)"
    by (simp only: mult_div_mod_eq)
  then have "STEP_RATE_IN_MILLISECONDS * of_nat (unat ?d div 125) + of_nat (unat ?d mod 125) = ?d"
    by (simp only: of_nat_add of_nat_mult of_nat_numeral of_nat_unat ucast_id
        STEP_RATE_IN_MILLISECONDS_def)
  then have "?d - STEP_RATE_IN_MILLISECONDS * of_nat (unat ?d div 125) = of_nat (unat ?d mod 125)"
    by (metis add_diff_cancel_left')
  then show ?thesis by (simp add: diff_diff_eq due_steps_def unat_step_rate)
qed

text \<open>
  Claim C9: in a frame that polls the time \<open>now\<close> with the last step at \<open>last_step\<close>, the
  loop of \<^verbatim>\<open>SDL_AppIterate\<close> makes exactly \<open>(now - last_step) div 125\<close> calls of
  \<^verbatim>\<open>snake_step\<close> (it stops early only where a call does not return) and adds that many
  times 125 ms to \<open>last_step\<close>; what is left of the elapsed time afterwards is
  \<open>(now - last_step) mod 125\<close>, which the next frame starts from.
\<close>

theorem catch_up_fixed_rate:
  "catch_up now ctx rs last_step =
     (case snake_steps (due_steps now last_step) ctx rs of
        Inl e \<Rightarrow> Inl e
      | Inr (ctx', rs') \<Rightarrow>
          Inr (ctx', rs', last_step + STEP_RATE_IN_MILLISECONDS * of_nat (due_steps now last_step))) \<and>
   due_steps now last_step = unat (now - last_step) div 125 \<and>
   unat (now - (last_step + STEP_RATE_IN_MILLISECONDS * of_nat (due_steps now last_step)))
     = unat (now - last_step) mod 125"
proof (intro conjI)
  show "catch_up now ctx rs last_step =
     (case snake_steps (due_steps now last_step) ctx rs of
        Inl e \<Rightarrow> Inl e
      | Inr (ctx', rs') \<Rightarrow>
          Inr (ctx', rs', last_step + STEP_RATE_IN_MILLISECONDS * of_nat (due_steps now last_step)))"
    by (rule catch_up_spec)
  show "due_steps now last_step = unat (now - last_step) div 125"
    by (simp add: due_steps_def unat_step_rate)
  have "unat (now - last_step) mod 125 < 2 ^ 64"
    by (rule less_trans [of _ 125]) simp_all
  then show "unat (now - (last_step + STEP_RATE_IN_MILLISECONDS * of_nat (due_steps now last_step)))
     = unat (now - last_step) mod 125"
    unfolding catch_up_remainder unat_step_rate
    by (simp add: unat_of_nat)
qed

end
